theory Spec2Isabelle
  imports
    Complex_Main
    "HOL-Library.Multiset"
    "HOL-Library.Char_ord"
    "HOL-Library.List_Lexorder"
    "HOL-Library.Product_Lexorder"
begin

section \<open>Data model (scripts/lib/schema.py)\<close>

text \<open>
  Python floats are modelled as reals and Python's unbounded integers as \<open>int\<close>;
  \<open>str\<close> is modelled as \<open>string\<close> with the ASCII character classes.  The dataclasses
  \<open>Engagement\<close>, \<open>Comment\<close>, \<open>SubScores\<close> and \<open>SaaSIdeaItem\<close> become records with the
  fields in the order of the source.  A list of items is a list of values: no object
  occurs twice in a list.
\<close>

datatype error = ValueError | IndexError

record Engagement =
  e_score :: "int option"
  num_comments :: "int option"
  upvote_ratio :: "real option"
  likes :: "int option"
  reposts :: "int option"
  replies :: "int option"
  quotes :: "int option"

record Comment =
  c_score :: int
  c_date :: "string option"
  c_author :: string
  c_excerpt :: string
  c_url :: string

record SubScores =
  s_idea_quality :: int
  s_engagement :: int
  s_market_signal :: int
  s_growth :: int
  s_recency :: int

record SaaSIdeaItem =
  item_id :: string
  title :: string
  url :: string
  source :: string
  subreddit :: string
  author_handle :: string
  date :: "string option"
  date_confidence :: string
  signal_type :: string
  idea_summary :: string
  target_audience :: string
  subreddit_growth :: real
  market_signal :: int
  cluster_id :: int
  engagement :: "Engagement option"
  top_comments :: "Comment list"
  comment_insights :: "string list"
  relevance :: real
  why_relevant :: string
  subs :: SubScores
  score :: int

text \<open>The dataclass constructors with their default field values.\<close>

definition mk_SubScores :: SubScores where
  "mk_SubScores =
     \<lparr>s_idea_quality = 0, s_engagement = 0, s_market_signal = 0, s_growth = 0, s_recency = 0\<rparr>"

definition mk_Engagement :: Engagement where
  "mk_Engagement =
     \<lparr>e_score = None, num_comments = None, upvote_ratio = None,
      likes = None, reposts = None, replies = None, quotes = None\<rparr>"

definition mk_item :: "string \<Rightarrow> string \<Rightarrow> string \<Rightarrow> string \<Rightarrow> SaaSIdeaItem" where
  "mk_item i t u s =
     \<lparr>item_id = i, title = t, url = u, source = s, subreddit = [], author_handle = [],
      date = None, date_confidence = ''low'', signal_type = ''problem'',
      idea_summary = [], target_audience = [], subreddit_growth = 1,
      market_signal = 25, cluster_id = - 1, engagement = None, top_comments = [],
      comment_insights = [], relevance = 1 / 2, why_relevant = [],
      subs = mk_SubScores, score = 0\<rparr>"

section \<open>Text normalisation and n-gram similarity (scripts/lib/dedupe.py, idea\_cluster.py)\<close>

text \<open>
  \<open>normalize_text\<close>: \<open>text.lower()\<close>, then every character that is neither a word
  character (\<open>\w\<close>) nor white space (\<open>\s\<close>) becomes a space, then every run of white
  space becomes one space, then \<open>strip()\<close>.  The two modules define the same three
  functions \<open>normalize_text\<close>, \<open>get_ngrams\<close> and \<open>jaccard_similarity\<close> word for word.
\<close>

definition is_space :: "char \<Rightarrow> bool" where
  "is_space c = (c \<in> set [CHR '' '', CHR 0x09, CHR 0x0A, CHR 0x0B, CHR 0x0C, CHR 0x0D,
                           CHR 0x1C, CHR 0x1D, CHR 0x1E, CHR 0x1F])"

definition is_digit :: "char \<Rightarrow> bool" where
  "is_digit c = (CHR ''0'' \<le> c \<and> c \<le> CHR ''9'')"

definition is_upper :: "char \<Rightarrow> bool" where
  "is_upper c = (CHR ''A'' \<le> c \<and> c \<le> CHR ''Z'')"

definition is_word :: "char \<Rightarrow> bool" where
  "is_word c = ((CHR ''a'' \<le> c \<and> c \<le> CHR ''z'') \<or> is_upper c \<or> is_digit c \<or> c = CHR ''_'')"

definition lower_char :: "char \<Rightarrow> char" where
  "lower_char c = (if is_upper c then char_of (of_char c + (32::nat)) else c)"

definition lower :: "string \<Rightarrow> string" where
  "lower text = map lower_char text"

definition sub_nonword :: "string \<Rightarrow> string" where
  "sub_nonword text = map (\<lambda>c. if is_word c \<or> is_space c then c else CHR '' '') text"

function collapse_ws :: "string \<Rightarrow> string" where
  "collapse_ws [] = []"
| "collapse_ws (c # cs) =
     (if is_space c then CHR '' '' # collapse_ws (dropWhile is_space cs)
      else c # collapse_ws cs)"
  by pat_completeness auto
termination
  by (relation "measure length") (auto simp: length_dropWhile_le less_Suc_eq_le)

definition strip :: "string \<Rightarrow> string" where
  "strip text = rev (dropWhile is_space (rev (dropWhile is_space text)))"

definition normalize_text :: "string \<Rightarrow> string" where
  "normalize_text text = strip (collapse_ws (sub_nonword (lower text)))"

text \<open>\<open>text[i:i+n]\<close> for \<open>0 \<le> i\<close> and \<open>0 \<le> n\<close>.\<close>

definition slice :: "string \<Rightarrow> nat \<Rightarrow> nat \<Rightarrow> string" where
  "slice text i n = take n (drop i text)"

definition get_ngrams :: "string \<Rightarrow> nat \<Rightarrow> string set" where
  "get_ngrams text n =
     (let text = normalize_text text
      in if length text < n then {text}
         else set (map (\<lambda>i. slice text i n) [0..<length text - n + 1]))"

definition jaccard_similarity :: "string set \<Rightarrow> string set \<Rightarrow> real" where
  "jaccard_similarity set1 set2 =
     (if set1 = {} \<or> set2 = {} then 0
      else let intersection = card (set1 \<inter> set2);
               union = card (set1 \<union> set2)
           in if union > 0 then real intersection / real union else 0)"

section \<open>Scoring (scripts/lib/score.py)\<close>

definition WEIGHT_IDEA_QUALITY :: real where "WEIGHT_IDEA_QUALITY = 30 / 100"
definition WEIGHT_ENGAGEMENT :: real where "WEIGHT_ENGAGEMENT = 25 / 100"
definition WEIGHT_MARKET_SIGNAL :: real where "WEIGHT_MARKET_SIGNAL = 20 / 100"
definition WEIGHT_GROWTH :: real where "WEIGHT_GROWTH = 15 / 100"
definition WEIGHT_RECENCY :: real where "WEIGHT_RECENCY = 10 / 100"

definition SIGNAL_TYPE_SCORES :: "string \<rightharpoonup> int" where
  "SIGNAL_TYPE_SCORES =
     [''wish'' \<mapsto> 90, ''problem'' \<mapsto> 80, ''feature_gap'' \<mapsto> 75,
      ''building'' \<mapsto> 70, ''workflow'' \<mapsto> 65]"

definition UNKNOWN_ENGAGEMENT_PENALTY :: int where "UNKNOWN_ENGAGEMENT_PENALTY = 10"
definition LOW_DATE_CONFIDENCE_PENALTY :: int where "LOW_DATE_CONFIDENCE_PENALTY = 10"
definition DEFAULT_ENGAGEMENT :: int where "DEFAULT_ENGAGEMENT = 35"

text \<open>\<open>int(x)\<close> of a float: truncation towards zero.\<close>

definition py_int :: "real \<Rightarrow> int" where
  "py_int x = (if 0 \<le> x then \<lfloor>x\<rfloor> else \<lceil>x\<rceil>)"

definition log1p_safe :: "int option \<Rightarrow> real" where
  "log1p_safe x =
     (case x of None \<Rightarrow> 0
      | Some v \<Rightarrow> if v < 0 then 0 else ln (1 + real_of_int v))"

definition normalize_to_100 :: "real option list \<Rightarrow> real \<Rightarrow> real option list" where
  "normalize_to_100 values default_val =
     (let valid = [v. Some v \<leftarrow> values]
      in if valid = [] then map (\<lambda>v. if v = None then Some default_val else Some 50) values
         else let min_val = Min (set valid);
                  max_val = Max (set valid);
                  range_val = max_val - min_val
              in if range_val = 0
                 then map (\<lambda>v. if v = None then Some 50 else Some 50) values
                 else map (\<lambda>v. case v of None \<Rightarrow> None
                                 | Some x \<Rightarrow> Some (((x - min_val) / range_val) * 100)) values)"

text \<open>\<open>engagement.upvote_ratio or 0.5\<close>: the ratio unless it is \<open>None\<close> or zero.\<close>

definition compute_reddit_engagement_raw :: "Engagement option \<Rightarrow> real option" where
  "compute_reddit_engagement_raw e =
     (case e of None \<Rightarrow> None
      | Some eng \<Rightarrow>
          if e_score eng = None \<and> num_comments eng = None then None
          else let sc = log1p_safe (e_score eng);
                   comments = log1p_safe (num_comments eng);
                   ratio = (case upvote_ratio eng of None \<Rightarrow> 5 / 10
                            | Some r \<Rightarrow> if r = 0 then 5 / 10 else r) * 10
               in Some (55 / 100 * sc + 40 / 100 * comments + 5 / 100 * ratio))"

definition compute_x_engagement_raw :: "Engagement option \<Rightarrow> real option" where
  "compute_x_engagement_raw e =
     (case e of None \<Rightarrow> None
      | Some eng \<Rightarrow>
          if likes eng = None \<and> reposts eng = None then None
          else let lk = log1p_safe (likes eng);
                   rp = log1p_safe (reposts eng);
                   rl = log1p_safe (replies eng);
                   qu = log1p_safe (quotes eng)
               in Some (55 / 100 * lk + 25 / 100 * rp + 15 / 100 * rl + 5 / 100 * qu))"

definition compute_idea_quality :: "SaaSIdeaItem \<Rightarrow> int" where
  "compute_idea_quality item =
     (let base = (case SIGNAL_TYPE_SCORES (signal_type item) of Some b \<Rightarrow> b | None \<Rightarrow> 65)
      in if target_audience item \<noteq> [] \<and> length (target_audience item) > 10
         then min (base + 10) 100 else base)"

definition compute_growth_score :: "real \<Rightarrow> int" where
  "compute_growth_score acceleration =
     (if acceleration \<ge> 3 then 100
      else if acceleration \<ge> 2 then 80
      else if acceleration \<ge> 15 / 10 then 60
      else if acceleration \<ge> 12 / 10 then 40
      else if acceleration \<ge> 1 then 20
      else 0)"

text \<open>The raw engagement of one item (the first loop of \<open>score_saas_items\<close>).\<close>

definition engagement_raw :: "SaaSIdeaItem \<Rightarrow> real option" where
  "engagement_raw item =
     (if source item = ''reddit'' then compute_reddit_engagement_raw (engagement item)
      else compute_x_engagement_raw (engagement item))"

text \<open>
  Lines 186 to 201 of \<open>score_saas_items\<close>: the weighted sum, the two penalties, the
  truncation and the clamp.  The two flags are \<open>eng_raw[i] is None\<close> and
  \<open>item.date_confidence == "low"\<close>.
\<close>

definition weighted_sum :: "int \<Rightarrow> int \<Rightarrow> int \<Rightarrow> int \<Rightarrow> int \<Rightarrow> real" where
  "weighted_sum idea_quality eng_score market_sig growth recency =
     WEIGHT_IDEA_QUALITY * real_of_int idea_quality +
     WEIGHT_ENGAGEMENT * real_of_int eng_score +
     WEIGHT_MARKET_SIGNAL * real_of_int market_sig +
     WEIGHT_GROWTH * real_of_int growth +
     WEIGHT_RECENCY * real_of_int recency"

definition composite :: "int \<Rightarrow> int \<Rightarrow> int \<Rightarrow> int \<Rightarrow> int \<Rightarrow> bool \<Rightarrow> bool \<Rightarrow> int" where
  "composite idea_quality eng_score market_sig growth recency eng_null low_conf =
     (let overall = weighted_sum idea_quality eng_score market_sig growth recency;
          overall = (if eng_null then overall - real_of_int UNKNOWN_ENGAGEMENT_PENALTY
                     else overall);
          overall = (if low_conf then overall - real_of_int LOW_DATE_CONFIDENCE_PENALTY
                     else overall)
      in max 0 (min 100 (py_int overall)))"

text \<open>
  The body of the second loop of \<open>score_saas_items\<close> for one item, given its raw and
  its normalised engagement.  \<open>dates.recency_score\<close> is not part of the sources at
  hand: it is the parameter \<open>recency_score\<close>, applied to the date and \<open>max_days\<close>.
\<close>

definition score_item ::
  "(string option \<Rightarrow> nat \<Rightarrow> int) \<Rightarrow> real option \<Rightarrow> real option \<Rightarrow> SaaSIdeaItem \<Rightarrow> SaaSIdeaItem"
where
  "score_item recency_score raw normalized item =
     (let idea_quality = compute_idea_quality item;
          eng_score = (case normalized of Some v \<Rightarrow> py_int v | None \<Rightarrow> DEFAULT_ENGAGEMENT);
          market_sig = market_signal item;
          growth = compute_growth_score (subreddit_growth item);
          recency = recency_score (date item) 180
      in item\<lparr>subs := \<lparr>s_idea_quality = idea_quality, s_engagement = eng_score,
                        s_market_signal = market_sig, s_growth = growth,
                        s_recency = recency\<rparr>,
              score := composite idea_quality eng_score market_sig growth recency
                         (raw = None) (date_confidence item = ''low'')\<rparr>)"

definition score_saas_items ::
  "(string option \<Rightarrow> nat \<Rightarrow> int) \<Rightarrow> SaaSIdeaItem list \<Rightarrow> SaaSIdeaItem list"
where
  "score_saas_items recency_score items =
     (if items = [] then items
      else let eng_raw = map engagement_raw items;
               eng_normalized = normalize_to_100 eng_raw 50
           in map (\<lambda>(i, item). score_item recency_score (eng_raw ! i) (eng_normalized ! i) item)
                (enumerate 0 items))"

section \<open>Sorting (scripts/lib/score.py)\<close>

text \<open>
  \<open>int(s)\<close> of a string: white space is stripped, one sign is allowed, and the rest is
  decimal digits, single underscores allowed between digits; anything else raises
  \<open>ValueError\<close>.
\<close>

definition digit_val :: "char \<Rightarrow> int" where
  "digit_val c = int (of_char c) - 48"

fun parse_digits :: "int \<Rightarrow> bool \<Rightarrow> string \<Rightarrow> int option" where
  "parse_digits acc prev_digit [] = (if prev_digit then Some acc else None)"
| "parse_digits acc prev_digit (c # cs) =
     (if is_digit c then parse_digits (10 * acc + digit_val c) True cs
      else if c = CHR ''_'' \<and> prev_digit then parse_digits acc False cs
      else None)"

definition int_of_str :: "string \<Rightarrow> error + int" where
  "int_of_str s =
     (case strip s of
        [] \<Rightarrow> Inl ValueError
      | c # cs \<Rightarrow>
          if c = CHR ''-'' then
            (case parse_digits 0 False cs of None \<Rightarrow> Inl ValueError | Some v \<Rightarrow> Inr (- v))
          else if c = CHR ''+'' then
            (case parse_digits 0 False cs of None \<Rightarrow> Inl ValueError | Some v \<Rightarrow> Inr v)
          else
            (case parse_digits 0 False (c # cs) of None \<Rightarrow> Inl ValueError | Some v \<Rightarrow> Inr v))"

text \<open>\<open>date.replace("-", "")\<close>\<close>

definition remove_dashes :: "string \<Rightarrow> string" where
  "remove_dashes s = filter (\<lambda>c. c \<noteq> CHR ''-'') s"

type_synonym sort_key_t = "int \<times> int \<times> nat \<times> string"

text \<open>
  The inner function \<open>sort_key\<close>.  \<open>item.date or "0000-00-00"\<close> replaces \<open>None\<close> and
  the empty string.
\<close>

definition sort_key_item :: "SaaSIdeaItem \<Rightarrow> error + sort_key_t" where
  "sort_key_item item =
     (let sc = - score item;
          d = (case date item of None \<Rightarrow> ''0000-00-00''
               | Some s \<Rightarrow> if s = [] then ''0000-00-00'' else s)
      in case int_of_str (remove_dashes d) of
           Inl e \<Rightarrow> Inl e
         | Inr v \<Rightarrow>
             Inr (sc, - v, if source item = ''reddit'' then 0 else 1, title item))"

text \<open>
  \<open>sorted(items, key=sort_key)\<close> computes the key of every item, in order, and the
  first exception ends the call; then the items are sorted by key, stably, tuples and
  strings being compared lexicographically.
\<close>

fun decorate :: "SaaSIdeaItem list \<Rightarrow> error + (sort_key_t \<times> SaaSIdeaItem) list" where
  "decorate [] = Inr []"
| "decorate (item # items) =
     (case sort_key_item item of
        Inl e \<Rightarrow> Inl e
      | Inr k \<Rightarrow> (case decorate items of Inl e \<Rightarrow> Inl e | Inr kis \<Rightarrow> Inr ((k, item) # kis)))"

definition sort_items :: "SaaSIdeaItem list \<Rightarrow> error + SaaSIdeaItem list" where
  "sort_items items =
     (case decorate items of
        Inl e \<Rightarrow> Inl e
      | Inr kis \<Rightarrow> Inr (map snd (linorder_class.sort_key fst kis)))"

text \<open>
  The date format that the parsers of both origins enforce before an item is built
  (\<open>re.match(r'^\d{4}-\d{2}-\d{2}$', date)\<close>, a date that does not match becomes
  \<open>None\<close>): four digits, a dash, two digits, a dash, two digits, and then the end of the
  string or one final newline, before which \<open>$\<close> matches as well.
\<close>

definition iso_shape :: "string \<Rightarrow> bool" where
  "iso_shape s =
     (length s = 10 \<and> (\<forall>i \<in> set [0, 1, 2, 3, 5, 6, 8, 9]. is_digit (s ! i))
      \<and> s ! 4 = CHR ''-'' \<and> s ! 7 = CHR ''-'')"

definition is_iso_date :: "string \<Rightarrow> bool" where
  "is_iso_date s =
     (iso_shape s \<or> (length s = 11 \<and> s ! 10 = CHR 0x0A \<and> iso_shape (take 10 s)))"

text \<open>
  The key of an item whose key computation returns, and the lexicographic order of two
  such keys read component by component.
\<close>

definition key_of :: "SaaSIdeaItem \<Rightarrow> sort_key_t" where
  "key_of item = (case sort_key_item item of Inr k \<Rightarrow> k | Inl e \<Rightarrow> (0, 0, 0, []))"


section \<open>Deduplication (scripts/lib/dedupe.py)\<close>

definition find_duplicates :: "SaaSIdeaItem list \<Rightarrow> real \<Rightarrow> (nat \<times> nat) list" where
  "find_duplicates items threshold =
     (let ngrams = map (\<lambda>item. get_ngrams (title item) 3) items
      in concat (map (\<lambda>i.
           concat (map (\<lambda>j.
             if jaccard_similarity (ngrams ! i) (ngrams ! j) \<ge> threshold then [(i, j)] else [])
             [i + 1..<length items]))
           [0..<length items]))"

text \<open>The loop over \<open>dup_pairs\<close> that fills \<open>to_remove\<close>.\<close>

definition to_remove :: "SaaSIdeaItem list \<Rightarrow> (nat \<times> nat) list \<Rightarrow> nat set" where
  "to_remove items dup_pairs =
     fold (\<lambda>(i, j) acc. if score (items ! i) \<ge> score (items ! j) then insert j acc
                         else insert i acc) dup_pairs {}"

definition dedupe_saas :: "SaaSIdeaItem list \<Rightarrow> real \<Rightarrow> SaaSIdeaItem list" where
  "dedupe_saas items threshold =
     (if length items \<le> 1 then items
      else let dup_pairs = find_duplicates items threshold;
               removed = to_remove items dup_pairs
           in map snd (filter (\<lambda>(idx, item). idx \<notin> removed) (enumerate 0 items)))"

text \<open>
  The notions that the properties of \<open>dedupe_saas\<close> are stated with: the similarity of
  two titles, when the item at index \<open>k\<close> beats the item at index \<open>m\<close>, the relation of
  duplicate pairs, and the indices that are not in the removal set.
\<close>

definition title_sim :: "SaaSIdeaItem \<Rightarrow> SaaSIdeaItem \<Rightarrow> real" where
  "title_sim a b = jaccard_similarity (get_ngrams (title a) 3) (get_ngrams (title b) 3)"

definition beats :: "SaaSIdeaItem list \<Rightarrow> nat \<Rightarrow> nat \<Rightarrow> bool" where
  "beats items k m =
     (score (items ! k) > score (items ! m) \<or> (score (items ! k) = score (items ! m) \<and> k < m))"

definition dup_rel :: "SaaSIdeaItem list \<Rightarrow> real \<Rightarrow> (nat \<times> nat) set" where
  "dup_rel items threshold =
     {(i, j). i < length items \<and> j < length items \<and> i \<noteq> j
              \<and> title_sim (items ! i) (items ! j) \<ge> threshold}"

definition kept :: "SaaSIdeaItem list \<Rightarrow> real \<Rightarrow> nat list" where
  "kept items threshold =
     filter (\<lambda>i. i \<notin> to_remove items (find_duplicates items threshold)) [0..<length items]"

section \<open>Clustering (scripts/lib/idea\_cluster.py)\<close>

text \<open>
  The union-find arrays \<open>parent\<close> and \<open>rank\<close> are lists that are passed through and
  returned.  A result is \<open>None\<close> when the call does not return, \<open>Some (Inl e)\<close> when it
  raises \<open>e\<close> (an index out of range), and \<open>Some (Inr v)\<close> when it returns \<open>v\<close>.
\<close>

type_synonym 'a result = "(error + 'a) option"

definition bind_res :: "'a result \<Rightarrow> ('a \<Rightarrow> 'b result) \<Rightarrow> 'b result" where
  "bind_res m f =
     (case m of None \<Rightarrow> None | Some (Inl e) \<Rightarrow> Some (Inl e) | Some (Inr v) \<Rightarrow> f v)"

text \<open>
  \<open>_find_root\<close>: the \<open>while\<close> loop with its path compression; the result is the
  updated \<open>parent\<close> and the root.
\<close>

partial_function (option) find_root :: "nat list \<Rightarrow> nat \<Rightarrow> (nat list \<times> nat) result" where
  "find_root parent i =
     (if i \<ge> length parent then Some (Inl IndexError)
      else if parent ! i = i then Some (Inr (parent, i))
      else if parent ! i \<ge> length parent then Some (Inl IndexError)
      else find_root (parent[i := parent ! (parent ! i)]) (parent ! (parent ! i)))"

declare find_root.simps [code]

text \<open>\<open>_union\<close>: union by rank.\<close>

definition union_uf ::
  "nat list \<Rightarrow> nat list \<Rightarrow> nat \<Rightarrow> nat \<Rightarrow> (nat list \<times> nat list) result"
where
  "union_uf parent rank a b =
     bind_res (find_root parent a) (\<lambda>(parent, ra).
     bind_res (find_root parent b) (\<lambda>(parent, rb).
       if ra = rb then Some (Inr (parent, rank))
       else if ra \<ge> length rank \<or> rb \<ge> length rank then Some (Inl IndexError)
       else let (ra, rb) = (if rank ! ra < rank ! rb then (rb, ra) else (ra, rb))
            in if rb \<ge> length parent then Some (Inl IndexError)
               else let parent = parent[rb := ra]
                    in if rank ! ra = rank ! rb
                       then Some (Inr (parent, rank[ra := rank ! ra + 1]))
                       else Some (Inr (parent, rank))))"

text \<open>The two nested loops over all pairs \<open>i < j\<close>.\<close>

fun inner_loop ::
  "string set list \<Rightarrow> real \<Rightarrow> nat \<Rightarrow> nat list \<Rightarrow> nat list \<Rightarrow> nat list
   \<Rightarrow> (nat list \<times> nat list) result"
where
  "inner_loop ngrams threshold i [] parent rank = Some (Inr (parent, rank))"
| "inner_loop ngrams threshold i (j # js) parent rank =
     (if jaccard_similarity (ngrams ! i) (ngrams ! j) \<ge> threshold
      then bind_res (union_uf parent rank i j)
             (\<lambda>(parent, rank). inner_loop ngrams threshold i js parent rank)
      else inner_loop ngrams threshold i js parent rank)"

fun outer_loop ::
  "string set list \<Rightarrow> real \<Rightarrow> nat \<Rightarrow> nat list \<Rightarrow> nat list \<Rightarrow> nat list
   \<Rightarrow> (nat list \<times> nat list) result"
where
  "outer_loop ngrams threshold n [] parent rank = Some (Inr (parent, rank))"
| "outer_loop ngrams threshold n (i # is) parent rank =
     bind_res (inner_loop ngrams threshold i [i + 1..<n] parent rank)
       (\<lambda>(parent, rank). outer_loop ngrams threshold n is parent rank)"

text \<open>
  The dictionary \<open>clusters\<close> keeps its keys in insertion order: an association list.
  \<open>dict_append\<close> is \<open>if root not in clusters: clusters[root] = []\<close> followed by
  \<open>clusters[root].append(i)\<close>, with \<open>r\<close> for \<open>root\<close>.
\<close>

fun dict_append :: "(nat \<times> nat list) list \<Rightarrow> nat \<Rightarrow> nat \<Rightarrow> (nat \<times> nat list) list" where
  "dict_append [] r i = [(r, [i])]"
| "dict_append ((k, members) # cs) r i =
     (if k = r then (k, members @ [i]) # cs else (k, members) # dict_append cs r i)"

fun sweep ::
  "nat list \<Rightarrow> nat list \<Rightarrow> (nat \<times> nat list) list \<Rightarrow> ((nat \<times> nat list) list) result"
where
  "sweep [] parent clusters = Some (Inr clusters)"
| "sweep (i # is) parent clusters =
     bind_res (find_root parent i)
       (\<lambda>(parent, r). sweep is parent (dict_append clusters r i))"

text \<open>The assignment of \<open>cluster_id\<close> and \<open>market_signal\<close> to the members of a cluster.\<close>

fun assign_members ::
  "int \<Rightarrow> int \<Rightarrow> nat list \<Rightarrow> SaaSIdeaItem list \<Rightarrow> error + SaaSIdeaItem list"
where
  "assign_members cid msig [] items = Inr items"
| "assign_members cid msig (idx # rest) items =
     (if idx \<ge> length items then Inl IndexError
      else assign_members cid msig rest
             (items[idx := (items ! idx)\<lparr>cluster_id := cid, market_signal := msig\<rparr>]))"

fun assign_clusters ::
  "nat \<Rightarrow> (nat \<times> nat list) list \<Rightarrow> SaaSIdeaItem list \<Rightarrow> error + SaaSIdeaItem list"
where
  "assign_clusters cid [] items = Inr items"
| "assign_clusters cid ((r, members) # cs) items =
     (let cluster_size = length members;
          msig = min (int cluster_size * 25) 100
      in case assign_members (int cid) msig members items of
           Inl e \<Rightarrow> Inl e
         | Inr items' \<Rightarrow> assign_clusters (Suc cid) cs items')"

definition cluster_ideas :: "SaaSIdeaItem list \<Rightarrow> real \<Rightarrow> (SaaSIdeaItem list) result" where
  "cluster_ideas items threshold =
     (if length items \<le> 1
      then Some (Inr (map (\<lambda>item. item\<lparr>market_signal := 25, cluster_id := 0\<rparr>) items))
      else let n = length items;
               ngrams = map (\<lambda>item. get_ngrams (idea_summary item) 3) items;
               parent = [0..<n];
               rank = replicate n 0
           in bind_res (outer_loop ngrams threshold n [0..<n] parent rank) (\<lambda>(parent, rank).
              bind_res (sweep [0..<n] parent []) (\<lambda>clusters.
                Some (assign_clusters 0 clusters items))))"

text \<open>
  The notions that the properties of the clustering are stated with.  \<open>reaches p i r h\<close>:
  following the parents from \<open>i\<close> in \<open>p\<close> ends after \<open>h\<close> steps in the root \<open>r\<close>.  In a
  well-formed forest every index reaches a root, which is then unique.
\<close>

inductive reaches :: "nat list \<Rightarrow> nat \<Rightarrow> nat \<Rightarrow> nat \<Rightarrow> bool" for p :: "nat list" where
  root: "i < length p \<Longrightarrow> p ! i = i \<Longrightarrow> reaches p i i 0"
| step: "i < length p \<Longrightarrow> p ! i \<noteq> i \<Longrightarrow> reaches p (p ! i) r h \<Longrightarrow> reaches p i r (Suc h)"

definition uf_inv :: "nat list \<Rightarrow> bool" where
  "uf_inv p = (\<forall>i < length p. \<exists>r h. reaches p i r h)"

definition root_of :: "nat list \<Rightarrow> nat \<Rightarrow> nat" where
  "root_of p i = (THE r. \<exists>h. reaches p i r h)"

text \<open>
  The forest \<open>p\<close> over \<open>n\<close> indices represents the equivalence generated by the pairs
  \<open>E\<close>: two indices have the same root exactly when \<open>E\<close> connects them.
\<close>

definition represents :: "nat list \<Rightarrow> (nat \<times> nat) set \<Rightarrow> nat \<Rightarrow> bool" where
  "represents p E n =
     (uf_inv p \<and> length p = n
      \<and> (\<forall>x < n. \<forall>y < n. root_of p x = root_of p y \<longleftrightarrow> (x, y) \<in> (E \<union> E\<inverse>)\<^sup>*))"

text \<open>The dictionary that the sweep builds from the roots \<open>\<rho>\<close>.\<close>

definition group_by_root :: "(nat \<Rightarrow> nat) \<Rightarrow> nat list \<Rightarrow> (nat \<times> nat list) list \<Rightarrow> (nat \<times> nat list) list" where
  "group_by_root \<rho> xs c = fold (\<lambda>i c. dict_append c (\<rho> i) i) xs c"

text \<open>The similarity of two idea summaries and the relation that it induces on indices.\<close>

definition summary_sim :: "SaaSIdeaItem \<Rightarrow> SaaSIdeaItem \<Rightarrow> real" where
  "summary_sim a b =
     jaccard_similarity (get_ngrams (idea_summary a) 3) (get_ngrams (idea_summary b) 3)"

definition sim_rel :: "SaaSIdeaItem list \<Rightarrow> real \<Rightarrow> (nat \<times> nat) set" where
  "sim_rel items threshold =
     {(i, j). i < length items \<and> j < length items \<and> i \<noteq> j
              \<and> summary_sim (items ! i) (items ! j) \<ge> threshold}"

section \<open>Example inputs\<close>

definition ex_scored_item :: SaaSIdeaItem where
  "ex_scored_item =
     (mk_item ''x1'' ''Invoice tool'' ''u1'' ''x'')
       \<lparr>date_confidence := ''high'', signal_type := ''wish'',
        target_audience := ''dog groomers'', subreddit_growth := 12 / 10,
        market_signal := 75, engagement := Some (mk_Engagement\<lparr>likes := Some 0\<rparr>)\<rparr>"

definition ex_reddit_item :: SaaSIdeaItem where
  "ex_reddit_item =
     (mk_item ''r1'' ''Need a CRM'' ''u2'' ''reddit'')
       \<lparr>engagement := Some (mk_Engagement\<lparr>e_score := Some 0\<rparr>)\<rparr>"

definition ex_null_item :: SaaSIdeaItem where
  "ex_null_item = mk_item ''r2'' ''Some title'' ''u3'' ''reddit''"


definition ex_bad_date_item :: SaaSIdeaItem where
  "ex_bad_date_item = (mk_item ''x9'' ''A title'' ''u9'' ''x'')\<lparr>date := Some ''unknown''\<rparr>"



definition ex_unsorted :: "SaaSIdeaItem list" where
  "ex_unsorted =
     [(mk_item ''a'' ''Alpha'' ''ua'' ''x'')\<lparr>score := 50\<rparr>,
      (mk_item ''b'' ''Beta'' ''ub'' ''reddit'')\<lparr>score := 80, date := Some ''2024-01-05''\<rparr>,
      (mk_item ''c'' ''Gamma'' ''uc'' ''x'')\<lparr>score := 80, date := Some ''2024-03-01''\<rparr>,
      (mk_item ''d'' ''Delta'' ''ud'' ''x'')\<lparr>score := 80\<rparr>]"


definition ex_dups :: "SaaSIdeaItem list" where
  "ex_dups =
     [(mk_item ''c'' ''abcdefghij'' ''uc'' ''x'')\<lparr>score := 70\<rparr>,
      (mk_item ''b'' ''abcdefghi'' ''ub'' ''x'')\<lparr>score := 60\<rparr>,
      (mk_item ''a'' ''abcdefgh'' ''ua'' ''x'')\<lparr>score := 50\<rparr>]"

definition ex_ideas :: "SaaSIdeaItem list" where
  "ex_ideas =
     [(mk_item ''1'' ''t1'' ''u1'' ''x'')\<lparr>idea_summary := ''abcdef''\<rparr>,
      (mk_item ''2'' ''t2'' ''u2'' ''x'')\<lparr>idea_summary := ''cdefgh''\<rparr>,
      (mk_item ''3'' ''t3'' ''u3'' ''x'')\<lparr>idea_summary := ''efghij''\<rparr>,
      (mk_item ''4'' ''t4'' ''u4'' ''x'')\<lparr>idea_summary := ''zzzzzz''\<rparr>]"

section \<open>Properties of the n-gram similarity\<close>






lemma jaccard_sym: "jaccard_similarity A B = jaccard_similarity B A"
  by (simp add: jaccard_similarity_def Let_def Int_commute Un_commute disj_commute)







section \<open>Properties of the scorer\<close>


lemma py_int_clamp: "max 0 (min 100 (py_int x)) = py_int (max 0 (min 100 x))"
  unfolding py_int_def max_def min_def
  by (auto simp: le_floor_iff floor_le_iff ceiling_le_iff le_ceiling_iff not_le) linarith+

lemma length_score_saas_items [simp]:
  "length (score_saas_items rs items) = length items"
  by (simp add: score_saas_items_def Let_def)

lemma nth_score_saas_items:
  "i < length items \<Longrightarrow>
   score_saas_items rs items ! i =
     score_item rs (engagement_raw (items ! i))
       (normalize_to_100 (map engagement_raw items) 50 ! i) (items ! i)"
  by (auto simp: score_saas_items_def Let_def nth_enumerate_eq)

lemma score_score_item:
  "score (score_item rs raw nrm item) =
     composite (compute_idea_quality item)
       (case nrm of Some v \<Rightarrow> py_int v | None \<Rightarrow> DEFAULT_ENGAGEMENT)
       (market_signal item) (compute_growth_score (subreddit_growth item))
       (rs (date item) 180) (raw = None) (date_confidence item = ''low'')"
  by (simp add: score_item_def Let_def)

lemma subs_score_item:
  "subs (score_item rs raw nrm item) =
     \<lparr>s_idea_quality = compute_idea_quality item,
      s_engagement = (case nrm of Some v \<Rightarrow> py_int v | None \<Rightarrow> DEFAULT_ENGAGEMENT),
      s_market_signal = market_signal item,
      s_growth = compute_growth_score (subreddit_growth item),
      s_recency = rs (date item) 180\<rparr>"
  by (simp add: score_item_def Let_def)

lemma composite_alt:
  "composite iq e m g r eng_null low_conf =
     py_int (max 0 (min 100
       (30 / 100 * real_of_int iq + 25 / 100 * real_of_int e + 20 / 100 * real_of_int m
        + 15 / 100 * real_of_int g + 10 / 100 * real_of_int r
        - (if eng_null then 10 else 0) - (if low_conf then 10 else 0))))"
proof -
  have "composite iq e m g r eng_null low_conf =
     max 0 (min 100 (py_int
       (30 / 100 * real_of_int iq + 25 / 100 * real_of_int e + 20 / 100 * real_of_int m
        + 15 / 100 * real_of_int g + 10 / 100 * real_of_int r
        - (if eng_null then 10 else 0) - (if low_conf then 10 else 0))))"
    unfolding composite_def weighted_sum_def WEIGHT_IDEA_QUALITY_def WEIGHT_ENGAGEMENT_def
      WEIGHT_MARKET_SIGNAL_def WEIGHT_GROWTH_def WEIGHT_RECENCY_def
      UNKNOWN_ENGAGEMENT_PENALTY_def LOW_DATE_CONFIDENCE_PENALTY_def Let_def
    by (cases eng_null; cases low_conf; simp)
  then show ?thesis by (simp only: py_int_clamp)
qed

lemma composite_example: "composite 100 50 75 40 20 False False = 65"
  by (simp add: composite_alt py_int_def)

text \<open>
  Claim C4: for every item of a batch, the composite score is the weighted sum
  0.30 idea\_quality + 0.25 engagement + 0.20 market\_signal + 0.15 growth + 0.10 recency of
  its five subscores, minus 10 if its raw engagement is null, minus 10 if its date
  confidence is low, clamped to the interval from 0 to 100 and truncated to an integer
  (the source truncates first and clamps second, which is the same number); the
  subscores 100, 50, 75, 40, 20 without penalty give 65.
\<close>

theorem composite_score_formula:
  "(\<forall>i < length items.
      (let out = score_saas_items rs items ! i; sb = subs out
       in score out =
            py_int (max 0 (min 100
              (30 / 100 * real_of_int (s_idea_quality sb) + 25 / 100 * real_of_int (s_engagement sb)
               + 20 / 100 * real_of_int (s_market_signal sb) + 15 / 100 * real_of_int (s_growth sb)
               + 10 / 100 * real_of_int (s_recency sb)
               - (if engagement_raw (items ! i) = None then 10 else 0)
               - (if date_confidence (items ! i) = ''low'' then 10 else 0))))))
   \<and> composite 100 50 75 40 20 False False = 65"
proof (intro conjI allI impI)
  fix i assume i: "i < length items"
  show "(let out = score_saas_items rs items ! i; sb = subs out
       in score out =
            py_int (max 0 (min 100
              (30 / 100 * real_of_int (s_idea_quality sb) + 25 / 100 * real_of_int (s_engagement sb)
               + 20 / 100 * real_of_int (s_market_signal sb) + 15 / 100 * real_of_int (s_growth sb)
               + 10 / 100 * real_of_int (s_recency sb)
               - (if engagement_raw (items ! i) = None then 10 else 0)
               - (if date_confidence (items ! i) = ''low'' then 10 else 0)))))"
    unfolding nth_score_saas_items[OF i] Let_def score_score_item subs_score_item composite_alt
    by simp
next
  show "composite 100 50 75 40 20 False False = 65" by (rule composite_example)
qed

lemma ex_scored_item_raw: "engagement_raw ex_scored_item = Some 0"
  by (simp add: engagement_raw_def ex_scored_item_def mk_item_def mk_Engagement_def
      compute_x_engagement_raw_def log1p_safe_def)

lemma ex_scored_item_subs:
  "subs (score_saas_items (\<lambda>d m. 20) [ex_scored_item] ! 0) =
     \<lparr>s_idea_quality = 100, s_engagement = 50, s_market_signal = 75, s_growth = 40,
      s_recency = 20\<rparr>"
  by (simp add: nth_score_saas_items subs_score_item ex_scored_item_raw normalize_to_100_def
      py_int_def)
    (simp add: ex_scored_item_def mk_item_def compute_idea_quality_def SIGNAL_TYPE_SCORES_def
      compute_growth_score_def)

theorem composite_score_formula_witness:
  "score (score_saas_items (\<lambda>d m. 20) [ex_scored_item] ! 0) = 65"
  using composite_score_formula [of "[ex_scored_item]" "\<lambda>d m. 20"]
  by (simp add: ex_scored_item_subs ex_scored_item_raw py_int_def)
    (simp add: ex_scored_item_def mk_item_def)

text \<open>
  Claim C10: for a Reddit item whose engagement is present, with \<open>score\<close> or
  \<open>num_comments\<close> set and \<open>upvote_ratio\<close> absent, the raw engagement uses the ratio
  0.5: the ratio term is the constant 0.05 * (0.5 * 10) = 0.25, the raw value is the one
  of the same engagement with ratio 0.5, and it is not the value with a ratio term of 0.
\<close>

theorem reddit_missing_ratio_default:
  "source item = ''reddit'' \<Longrightarrow> engagement item = Some eng \<Longrightarrow>
   e_score eng \<noteq> None \<or> num_comments eng \<noteq> None \<Longrightarrow> upvote_ratio eng = None \<Longrightarrow>
   engagement_raw item =
     Some (55 / 100 * log1p_safe (e_score eng) + 40 / 100 * log1p_safe (num_comments eng)
           + 5 / 100 * (5 / 10 * 10))
   \<and> 5 / 100 * (5 / 10 * 10) = (25 / 100 :: real)
   \<and> engagement_raw item =
       compute_reddit_engagement_raw (Some (eng\<lparr>upvote_ratio := Some (5 / 10)\<rparr>))
   \<and> engagement_raw item \<noteq>
       Some (55 / 100 * log1p_safe (e_score eng) + 40 / 100 * log1p_safe (num_comments eng))"
  by (auto simp: engagement_raw_def compute_reddit_engagement_raw_def Let_def)

theorem reddit_missing_ratio_default_witness:
  "engagement_raw ex_reddit_item = Some (25 / 100)"
  using reddit_missing_ratio_default
    [of ex_reddit_item "mk_Engagement\<lparr>e_score := Some 0\<rparr>"]
  by (simp add: ex_reddit_item_def mk_item_def mk_Engagement_def log1p_safe_def)

lemma normalize_all_null:
  "\<forall>v \<in> set vs. v = None \<Longrightarrow> normalize_to_100 vs d = map (\<lambda>v. Some d) vs"
proof -
  assume a: "\<forall>v \<in> set vs. v = None"
  then have "[v. Some v \<leftarrow> vs] = []"
    by (induction vs) auto
  with a show ?thesis
    by (simp add: normalize_to_100_def)
qed

lemma all_null_batch:
  assumes "\<forall>item \<in> set items. engagement_raw item = None" "i < length items"
  shows "s_engagement (subs (score_saas_items rs items ! i)) = 50"
proof -
  have "normalize_to_100 (map engagement_raw items) 50 = map (\<lambda>v. Some 50) (map engagement_raw items)"
    by (rule normalize_all_null) (use assms(1) in auto)
  with assms(2) show ?thesis
    by (simp add: nth_score_saas_items subs_score_item py_int_def)
qed

lemma ex_null_item_raw: "engagement_raw ex_null_item = None"
  by (simp add: engagement_raw_def ex_null_item_def mk_item_def compute_reddit_engagement_raw_def)

text \<open>
  Claim C1 at a batch of one item without engagement: \<open>normalize_to_100\<close> is called
  without its \<open>default\<close> argument, so the item gets the engagement subscore 50, not
  \<open>DEFAULT_ENGAGEMENT\<close> = 35; the null-engagement penalty is applied, and the composite
  is 24, where the subscore 35 would give 20.
\<close>

theorem all_null_batch_engagement_is_50:
  "engagement_raw ex_null_item = None
   \<and> s_engagement (subs (score_saas_items (\<lambda>d m. 0) [ex_null_item] ! 0)) = 50
   \<and> score (score_saas_items (\<lambda>d m. 0) [ex_null_item] ! 0) = 24
   \<and> composite 80 35 25 20 0 True True = 20"
proof (intro conjI)
  show "engagement_raw ex_null_item = None" by (rule ex_null_item_raw)
  show "s_engagement (subs (score_saas_items (\<lambda>d m. 0) [ex_null_item] ! 0)) = 50"
    by (rule all_null_batch) (simp_all add: ex_null_item_raw)
  show "score (score_saas_items (\<lambda>d m. 0) [ex_null_item] ! 0) = 24"
    by (simp add: nth_score_saas_items score_score_item ex_null_item_raw normalize_to_100_def
        composite_alt)
      (simp add: ex_null_item_def mk_item_def compute_idea_quality_def SIGNAL_TYPE_SCORES_def
        compute_growth_score_def py_int_def)
  show "composite 80 35 25 20 0 True True = 20"
    by (simp add: composite_alt py_int_def)
qed



lemma length_normalize_to_100 [simp]: "length (normalize_to_100 values d) = length values"
  by (simp add: normalize_to_100_def Let_def)









section \<open>Properties of the sorter\<close>


text \<open>
  Claim C9, as stated, fails: a date that is not a number once its dashes are removed
  makes \<open>int\<close> raise \<open>ValueError\<close> in \<open>sort_key\<close>, and \<open>sort_items\<close> raises.
\<close>

theorem sort_items_raises_counterexample: "sort_items [ex_bad_date_item] = Inl ValueError"
  by code_simp




lemma parse_digits_all_digits:
  "\<forall>c \<in> set cs. is_digit c \<Longrightarrow> cs \<noteq> [] \<or> b \<Longrightarrow> \<exists>v. parse_digits acc b cs = Some v"
  by (induction cs arbitrary: acc b) auto






lemma decorate_all_keys:
  "\<forall>x \<in> set items. sort_key_item x = Inr (key_of x) \<Longrightarrow>
   decorate items = Inr (map (\<lambda>x. (key_of x, x)) items)"
  by (induction items) simp_all

lemma insort_decorated:
  "insort_key fst (f x, x) (map (\<lambda>y. (f y, y)) ys) = map (\<lambda>y. (f y, y)) (insort_key f x ys)"
  by (induction ys) simp_all

lemma sort_decorated:
  "linorder_class.sort_key fst (map (\<lambda>y. (f y, y)) xs)
     = map (\<lambda>y. (f y, y)) (linorder_class.sort_key f xs)"
  by (induction xs) (simp_all add: insort_decorated)


lemma sort_items_all_keys:
  "\<forall>x \<in> set items. sort_key_item x = Inr (key_of x) \<Longrightarrow>
   sort_items items = Inr (linorder_class.sort_key key_of items)"
  by (simp add: sort_items_def decorate_all_keys sort_decorated comp_def)



lemma digit_not_space: "is_digit c \<Longrightarrow> \<not> is_space c"
  by (auto simp: is_digit_def is_space_def less_eq_char_def)

lemma digit_not_sign: "is_digit c \<Longrightarrow> c \<noteq> CHR ''-'' \<and> c \<noteq> CHR ''+''"
  by (auto simp: is_digit_def less_eq_char_def)

lemma strip_digits:
  assumes "\<forall>c \<in> set ds. is_digit c"
  shows "strip ds = ds"
proof (cases ds rule: rev_cases)
  case Nil
  then show ?thesis by (simp add: strip_def)
next
  case (snoc xs x)
  have 1: "dropWhile is_space ds = ds"
    using assms by (cases ds) (auto simp: digit_not_space)
  have "dropWhile is_space (rev ds) = rev ds"
    using assms snoc by (simp add: digit_not_space)
  with 1 show ?thesis by (simp add: strip_def)
qed

lemma int_of_str_digits:
  assumes "\<forall>c \<in> set ds. is_digit c" "ds \<noteq> []"
  shows "\<exists>v. int_of_str ds = Inr v"
proof -
  from assms(2) obtain c cs where ds: "ds = c # cs" by (cases ds) auto
  with assms(1) have c: "c \<noteq> CHR ''-''" "c \<noteq> CHR ''+''"
    using digit_not_sign[of c] by auto
  from parse_digits_all_digits[of "c # cs" False 0] assms(1) ds
  obtain v where "parse_digits 0 False (c # cs) = Some v" by auto
  then show ?thesis
    using c ds strip_digits[OF assms(1)]
    by (simp add: int_of_str_def del: parse_digits.simps)
qed

lemma strip_digits_newline:
  assumes "\<forall>c \<in> set ds. is_digit c" "ds \<noteq> []"
  shows "strip (ds @ [CHR 0x0A]) = ds"
proof -
  from assms(2) obtain xs x where ds: "ds = xs @ [x]" by (cases ds rule: rev_cases) auto
  have nl: "is_space (CHR 0x0A)" by (simp add: is_space_def)
  have 1: "dropWhile is_space (ds @ [CHR 0x0A]) = ds @ [CHR 0x0A]"
    using assms by (cases ds) (auto simp: digit_not_space)
  have "dropWhile is_space (rev (ds @ [CHR 0x0A])) = rev ds"
    using assms(1) ds nl by (simp add: digit_not_space)
  with 1 show ?thesis by (simp add: strip_def)
qed

lemma int_of_str_digits_newline:
  assumes "\<forall>c \<in> set ds. is_digit c" "ds \<noteq> []"
  shows "\<exists>v. int_of_str (ds @ [CHR 0x0A]) = Inr v"
proof -
  from assms(2) obtain c cs where ds: "ds = c # cs" by (cases ds) auto
  with assms(1) have c: "c \<noteq> CHR ''-''" "c \<noteq> CHR ''+''"
    using digit_not_sign[of c] by auto
  from parse_digits_all_digits[of "c # cs" False 0] assms(1) ds
  obtain v where "parse_digits 0 False (c # cs) = Some v" by auto
  then show ?thesis
    using c ds strip_digits_newline[OF assms]
    by (simp add: int_of_str_def del: parse_digits.simps)
qed

lemma iso_shape_digits:
  assumes "iso_shape s"
  shows "(\<forall>c \<in> set (remove_dashes s). is_digit c) \<and> remove_dashes s \<noteq> []"
proof
  from assms have len: "length s = 10"
    and dg: "\<And>i. i \<in> {0, 1, 2, 3, 5, 6, 8, 9} \<Longrightarrow> is_digit (s ! i)"
    and d4: "s ! 4 = CHR ''-''" and d7: "s ! 7 = CHR ''-''"
    by (auto simp: iso_shape_def)
  show "\<forall>c \<in> set (remove_dashes s). is_digit c"
  proof
    fix c assume "c \<in> set (remove_dashes s)"
    then have cs: "c \<in> set s" and nd: "c \<noteq> CHR ''-''"
      by (auto simp: remove_dashes_def)
    from cs obtain i where i: "i < length s" "s ! i = c"
      by (auto simp: in_set_conv_nth)
    with len have "i \<in> {0, 1, 2, 3, 4, 5, 6, 7, 8, 9}" by auto
    with nd i d4 d7 have "i \<in> {0, 1, 2, 3, 5, 6, 8, 9}" by auto
    from dg[OF this] i show "is_digit c" by simp
  qed
  have "is_digit (s ! 0)" by (rule dg) simp
  then have "s ! 0 \<noteq> CHR ''-''" using digit_not_sign by blast
  moreover have "s ! 0 \<in> set s" using len by (intro nth_mem) simp
  ultimately have "s ! 0 \<in> set (remove_dashes s)" by (simp add: remove_dashes_def)
  then show "remove_dashes s \<noteq> []" by auto
qed

lemma iso_date_converts:
  assumes "is_iso_date s"
  shows "\<exists>v. int_of_str (remove_dashes s) = Inr v"
proof (cases "iso_shape s")
  case True
  from iso_shape_digits[OF this] int_of_str_digits[of "remove_dashes s"]
  show ?thesis by blast
next
  case False
  with assms have l: "length s = 11" and nl: "s ! 10 = CHR 0x0A" and sh: "iso_shape (take 10 s)"
    by (auto simp: is_iso_date_def)
  have "s = take 10 s @ [s ! 10]"
    using l by (metis Suc_eq_plus1 lessI numeral_plus_one semiring_norm(5,8)
      take_Suc_conv_app_nth take_all order_refl)
  then have s: "s = take 10 s @ [CHR 0x0A]" using nl by simp
  have "remove_dashes s = remove_dashes (take 10 s) @ [CHR 0x0A]"
    by (subst s) (simp add: remove_dashes_def)
  with iso_shape_digits[OF sh] int_of_str_digits_newline[of "remove_dashes (take 10 s)"]
  show ?thesis by simp
qed

lemma sort_key_item_valid_date:
  assumes "date x = None \<or> date x = Some [] \<or> (\<exists>s. date x = Some s \<and> is_iso_date s)"
  shows "\<exists>k. sort_key_item x = Inr k"
proof -
  define d where "d = (case date x of None \<Rightarrow> ''0000-00-00''
               | Some s \<Rightarrow> if s = [] then ''0000-00-00'' else s)"
  have iso0: "is_iso_date ''0000-00-00''" by code_simp
  have "is_iso_date d"
    using assms iso0 by (auto simp: d_def)
  from iso_date_converts[OF this]
  obtain v where "int_of_str (remove_dashes d) = Inr v" by blast
  then show ?thesis
    unfolding sort_key_item_def Let_def d_def[symmetric] by simp
qed

text \<open>
  Claim C9, amended: \<open>sort_items\<close> returns, with a permutation of its input, for every
  list of items whose date is \<open>None\<close>, the empty string or a string that matches the
  pattern for YYYY-MM-DD that the parsers of both origins enforce.
\<close>

theorem sort_items_total_on_valid_dates:
  "\<forall>x \<in> set items. date x = None \<or> date x = Some [] \<or> (\<exists>s. date x = Some s \<and> is_iso_date s)
   \<Longrightarrow> \<exists>ys. sort_items items = Inr ys \<and> mset ys = mset items"
proof -
  assume a: "\<forall>x \<in> set items. date x = None \<or> date x = Some [] \<or> (\<exists>s. date x = Some s \<and> is_iso_date s)"
  have "\<forall>x \<in> set items. sort_key_item x = Inr (key_of x)"
  proof
    fix x assume "x \<in> set items"
    with a sort_key_item_valid_date[of x] obtain k where "sort_key_item x = Inr k" by blast
    then show "sort_key_item x = Inr (key_of x)" by (simp add: key_of_def)
  qed
  from sort_items_all_keys[OF this] show ?thesis by simp
qed



theorem sort_items_total_on_valid_dates_witness:
  "\<exists>ys. sort_items ex_unsorted = Inr ys \<and> mset ys = mset ex_unsorted"
proof (rule sort_items_total_on_valid_dates)
  have "is_iso_date ''2024-01-05''" "is_iso_date ''2024-03-01''" by code_simp+
  then show "\<forall>x \<in> set ex_unsorted.
      date x = None \<or> date x = Some [] \<or> (\<exists>s. date x = Some s \<and> is_iso_date s)"
    by (simp add: ex_unsorted_def mk_item_def)
qed

section \<open>Properties of the deduplicator\<close>


lemma title_sim_sym: "title_sim a b = title_sim b a"
  by (simp add: title_sim_def jaccard_sym)

lemma set_find_duplicates:
  "set (find_duplicates items t) =
     {(i, j). i < j \<and> j < length items \<and> title_sim (items ! i) (items ! j) \<ge> t}"
  by (auto simp: find_duplicates_def Let_def title_sim_def)

lemma fold_to_remove:
  "fold (\<lambda>(i, j) acc. if score (items ! i) \<ge> score (items ! j) then insert j acc
                         else insert i acc) ps acc0
   = acc0 \<union> {m. \<exists>(i, j) \<in> set ps.
        (score (items ! i) \<ge> score (items ! j) \<and> m = j)
        \<or> (score (items ! i) < score (items ! j) \<and> m = i)}"
proof (induction ps arbitrary: acc0)
  case Nil
  then show ?case by simp
next
  case (Cons p ps)
  obtain i j where p: "p = (i, j)" by (cases p)
  show ?case
    unfolding fold_simps Cons.IH p
    by (auto split: if_splits)
qed

lemma to_remove_iff:
  "m \<in> to_remove items ps \<longleftrightarrow>
     (\<exists>(i, j) \<in> set ps.
        (score (items ! i) \<ge> score (items ! j) \<and> m = j)
        \<or> (score (items ! i) < score (items ! j) \<and> m = i))"
  unfolding to_remove_def fold_to_remove by simp

lemma removed_iff:
  assumes "m < length items"
  shows "m \<in> to_remove items (find_duplicates items t) \<longleftrightarrow>
     (\<exists>k < length items. k \<noteq> m \<and> title_sim (items ! k) (items ! m) \<ge> t \<and> beats items k m)"
    (is "?L \<longleftrightarrow> ?R")
proof
  assume ?L
  then obtain i j where ij: "i < j" "j < length items" "title_sim (items ! i) (items ! j) \<ge> t"
    and c: "(score (items ! i) \<ge> score (items ! j) \<and> m = j)
        \<or> (score (items ! i) < score (items ! j) \<and> m = i)"
    unfolding to_remove_iff set_find_duplicates by auto
  from c show ?R
  proof
    assume "score (items ! i) \<ge> score (items ! j) \<and> m = j"
    with ij show ?R
      by (intro exI[of _ i]) (auto simp: beats_def)
  next
    assume "score (items ! i) < score (items ! j) \<and> m = i"
    with ij show ?R
      by (intro exI[of _ j]) (auto simp: beats_def title_sim_sym[of "items ! j"])
  qed
next
  assume ?R
  then obtain k where k: "k < length items" "k \<noteq> m" "title_sim (items ! k) (items ! m) \<ge> t"
    "beats items k m" by blast
  show ?L
  proof (cases "k < m")
    case True
    with k assms have "(k, m) \<in> set (find_duplicates items t)"
      by (simp add: set_find_duplicates)
    moreover have "score (items ! k) \<ge> score (items ! m)"
      using k(4) by (auto simp: beats_def)
    ultimately show ?thesis unfolding to_remove_iff by blast
  next
    case False
    with k have mk: "m < k" by simp
    with k have "(m, k) \<in> set (find_duplicates items t)"
      by (simp add: set_find_duplicates title_sim_sym[of "items ! m"])
    moreover have "score (items ! m) < score (items ! k)"
      using k(4) mk by (auto simp: beats_def)
    ultimately show ?thesis unfolding to_remove_iff by blast
  qed
qed

lemma filter_enumerate:
  "map snd (filter (\<lambda>(idx, item). P idx) (enumerate k xs))
     = map (\<lambda>i. xs ! (i - k)) (filter P [k..<k + length xs])"
proof (induction xs arbitrary: k)
  case Nil
  then show ?case by simp
next
  case (Cons x xs)
  have up: "[k..<k + length (x # xs)] = k # [Suc k..<Suc k + length xs]"
    by (simp add: upt_rec)
  have "map (\<lambda>i. (x # xs) ! (i - k)) (filter P [Suc k..<Suc k + length xs])
      = map (\<lambda>i. xs ! (i - Suc k)) (filter P [Suc k..<Suc k + length xs])"
  proof (rule map_cong[OF refl])
    fix i assume "i \<in> set (filter P [Suc k..<Suc k + length xs])"
    then have "Suc k \<le> i" by (simp del: upt_Suc)
    then have "i - k = Suc (i - Suc k)" by arith
    then show "(x # xs) ! (i - k) = xs ! (i - Suc k)" by simp
  qed
  then show ?case
    unfolding up using Cons.IH[of "Suc k"] by simp
qed

lemma dedupe_saas_kept: "dedupe_saas items t = map (nth items) (kept items t)"
proof (cases "length items \<le> 1")
  case True
  then have "set (find_duplicates items t) = {}"
    unfolding set_find_duplicates by auto
  then have "find_duplicates items t = []"
    by simp
  then have "kept items t = [0..<length items]"
    by (simp add: kept_def to_remove_def)
  with True show ?thesis
    by (simp add: dedupe_saas_def map_nth)
next
  case False
  then show ?thesis
    using filter_enumerate[of "\<lambda>i. i \<notin> to_remove items (find_duplicates items t)" 0 items]
    by (simp add: dedupe_saas_def Let_def kept_def)
qed

lemma kept_sorted: "sorted_wrt (<) (kept items t)"
  unfolding kept_def by (rule sorted_wrt_filter) simp

lemma kept_mem:
  "m \<in> set (kept items t) \<longleftrightarrow>
     m < length items \<and> m \<notin> to_remove items (find_duplicates items t)"
  by (auto simp: kept_def)

lemma length_dedupe_saas: "length (dedupe_saas items t) \<le> length items"
  unfolding dedupe_saas_kept kept_def
  using length_filter_le[of _ "[0..<length items]"] by simp

lemma beats_asym: "beats items k m \<Longrightarrow> \<not> beats items m k"
  by (auto simp: beats_def)

text \<open>
  Claim C5, amended: \<open>dedupe_saas\<close> never increases the item count; its result is the
  items at the kept indices, in order; an item is removed exactly when some other item
  is a duplicate of it (title similarity at or above the threshold) and beats it, that
  is has a strictly higher score, or the same score and a lower index; and an item that
  beats every other item of its transitively connected cluster of duplicate pairs is
  never removed.
\<close>

theorem dedupe_saas_survivors:
  "length (dedupe_saas items t) \<le> length items
   \<and> dedupe_saas items t = map (nth items) (kept items t)
   \<and> (\<forall>m < length items.
         m \<notin> set (kept items t) \<longleftrightarrow>
           (\<exists>k < length items. k \<noteq> m \<and> title_sim (items ! k) (items ! m) \<ge> t
                \<and> beats items k m))
   \<and> (\<forall>m < length items.
         (\<forall>k. (m, k) \<in> (dup_rel items t)\<^sup>* \<and> k \<noteq> m \<longrightarrow> beats items m k)
         \<longrightarrow> m \<in> set (kept items t))"
proof (intro conjI allI impI)
  show "length (dedupe_saas items t) \<le> length items" by (rule length_dedupe_saas)
  show "dedupe_saas items t = map (nth items) (kept items t)" by (rule dedupe_saas_kept)
next
  fix m assume m: "m < length items"
  show "m \<notin> set (kept items t) \<longleftrightarrow>
           (\<exists>k < length items. k \<noteq> m \<and> title_sim (items ! k) (items ! m) \<ge> t
                \<and> beats items k m)"
    unfolding kept_mem using m removed_iff[OF m, of t] by blast
next
  fix m assume m: "m < length items"
    and top: "\<forall>k. (m, k) \<in> (dup_rel items t)\<^sup>* \<and> k \<noteq> m \<longrightarrow> beats items m k"
  show "m \<in> set (kept items t)"
  proof (rule ccontr)
    assume "m \<notin> set (kept items t)"
    with m have "m \<in> to_remove items (find_duplicates items t)"
      by (simp add: kept_mem)
    then obtain k where k: "k < length items" "k \<noteq> m"
      "title_sim (items ! k) (items ! m) \<ge> t" "beats items k m"
      unfolding removed_iff[OF m] by blast
    then have "(m, k) \<in> dup_rel items t"
      using m by (simp add: dup_rel_def title_sim_sym[of "items ! m"])
    then have "(m, k) \<in> (dup_rel items t)\<^sup>*" by (rule r_into_rtrancl)
    with top k(2) have "beats items m k" by blast
    with k(4) show False using beats_asym by blast
  qed
qed

lemma kept_pair_not_dup:
  assumes "a < b" "a \<in> set (kept items t)" "b \<in> set (kept items t)"
  shows "\<not> title_sim (items ! a) (items ! b) \<ge> t"
proof
  assume s: "title_sim (items ! a) (items ! b) \<ge> t"
  from assms have b: "b < length items" by (simp add: kept_mem)
  with assms(1) s have "(a, b) \<in> set (find_duplicates items t)"
    by (simp add: set_find_duplicates)
  then have "a \<in> to_remove items (find_duplicates items t)
      \<or> b \<in> to_remove items (find_duplicates items t)"
    unfolding to_remove_iff by (cases "score (items ! a) \<ge> score (items ! b)") force+
  with assms(2,3) show False by (simp add: kept_mem)
qed

lemma dedupe_no_dup_pair:
  assumes "i < j" "j < length (dedupe_saas items t)"
  shows "\<not> title_sim (dedupe_saas items t ! i) (dedupe_saas items t ! j) \<ge> t"
proof -
  let ?K = "kept items t"
  from assms have j: "j < length ?K" and i: "i < length ?K"
    by (simp_all add: dedupe_saas_kept)
  have lt: "?K ! i < ?K ! j"
    using kept_sorted[of items t] assms(1) j by (simp add: sorted_wrt_iff_nth_less)
  have "\<not> title_sim (items ! (?K ! i)) (items ! (?K ! j)) \<ge> t"
    using lt i j by (intro kept_pair_not_dup) simp_all
  then show ?thesis using i j by (simp add: dedupe_saas_kept)
qed

lemma no_dup_pair_fixed:
  assumes "\<forall>i j. i < j \<and> j < length xs \<longrightarrow> \<not> title_sim (xs ! i) (xs ! j) \<ge> t"
  shows "dedupe_saas xs t = xs"
proof -
  have "set (find_duplicates xs t) = {}"
    unfolding set_find_duplicates using assms by auto
  then have "find_duplicates xs t = []" by simp
  then have "kept xs t = [0..<length xs]"
    by (simp add: kept_def to_remove_def)
  then show ?thesis by (simp add: dedupe_saas_kept map_nth)
qed

text \<open>
  Claim C8: applying \<open>dedupe_saas\<close> to its own result returns that result; the result
  holds no pair of items whose title similarity reaches the threshold; and an input of
  at most one item is returned unchanged, there being no pair to compare.
\<close>

theorem dedupe_saas_idempotent:
  "dedupe_saas (dedupe_saas items t) t = dedupe_saas items t
   \<and> (\<forall>i j. i < j \<and> j < length (dedupe_saas items t) \<longrightarrow>
         \<not> title_sim (dedupe_saas items t ! i) (dedupe_saas items t ! j) \<ge> t)
   \<and> (length items \<le> 1 \<longrightarrow> dedupe_saas items t = items \<and> find_duplicates items t = [])"
proof (intro conjI allI impI)
  show nd: "\<And>i j. i < j \<and> j < length (dedupe_saas items t) \<Longrightarrow>
         \<not> title_sim (dedupe_saas items t ! i) (dedupe_saas items t ! j) \<ge> t"
    using dedupe_no_dup_pair by blast
  then show "dedupe_saas (dedupe_saas items t) t = dedupe_saas items t"
    by (intro no_dup_pair_fixed) blast
next
  assume l: "length items \<le> 1"
  then show "dedupe_saas items t = items" by (simp add: dedupe_saas_def)
  have "set (find_duplicates items t) = {}"
    unfolding set_find_duplicates using l by auto
  then show "find_duplicates items t = []" by simp
qed

lemma ex_dups_dedupe: "dedupe_saas ex_dups (7 / 10) = [ex_dups ! 0]"
  by code_simp

text \<open>
  Claim C5, as stated, fails: in a list sorted by score, the second item is the
  higher-scored member of the duplicate pair that it forms with the third item, and it is
  removed, because the first item is a duplicate of it with a higher score.
\<close>

theorem dedupe_removes_pair_top_counterexample:
  "title_sim (ex_dups ! 1) (ex_dups ! 2) \<ge> 7 / 10
   \<and> score (ex_dups ! 1) > score (ex_dups ! 2)
   \<and> dedupe_saas ex_dups (7 / 10) = [ex_dups ! 0]
   \<and> ex_dups ! 1 \<notin> set (dedupe_saas ex_dups (7 / 10))"
  by code_simp

lemma dup_rel_rtrancl_bound:
  "(m, k) \<in> (dup_rel items t)\<^sup>* \<Longrightarrow> k \<noteq> m \<Longrightarrow> k < length items"
  by (erule rtranclE) (auto simp: dup_rel_def)

theorem dedupe_saas_survivors_witness:
  "0 \<in> set (kept ex_dups (7 / 10))
   \<and> 1 \<notin> set (kept ex_dups (7 / 10))
   \<and> dedupe_saas ex_dups (7 / 10) = map (nth ex_dups) (kept ex_dups (7 / 10))
   \<and> length (dedupe_saas ex_dups (7 / 10)) \<le> length ex_dups"
proof -
  note t = dedupe_saas_survivors[of ex_dups "7 / 10"]
  have l: "length ex_dups = 3" by (simp add: ex_dups_def)
  have top: "\<forall>k. (0, k) \<in> (dup_rel ex_dups (7 / 10))\<^sup>* \<and> k \<noteq> 0 \<longrightarrow> beats ex_dups 0 k"
  proof (intro allI impI)
    fix k assume "(0, k) \<in> (dup_rel ex_dups (7 / 10))\<^sup>* \<and> k \<noteq> 0"
    then have "k < 3" "k \<noteq> 0" using dup_rel_rtrancl_bound[of 0 k ex_dups "7 / 10"] l by auto
    then have "k = 1 \<or> k = 2" by arith
    then show "beats ex_dups 0 k"
      by (auto simp: beats_def ex_dups_def)
  qed
  have a: "0 \<in> set (kept ex_dups (7 / 10))"
    using t top l by simp
  have s: "title_sim (ex_dups ! 0) (ex_dups ! 1) \<ge> 7 / 10" by code_simp
  have "\<exists>k < length ex_dups. k \<noteq> 1 \<and> title_sim (ex_dups ! k) (ex_dups ! 1) \<ge> 7 / 10
            \<and> beats ex_dups k 1"
    by (rule exI[of _ 0]) (use s l in \<open>simp add: beats_def ex_dups_def\<close>)
  moreover have "(1::nat) < length ex_dups" using l by simp
  ultimately have b: "1 \<notin> set (kept ex_dups (7 / 10))"
    using t by blast
  from a b t show ?thesis by blast
qed

theorem dedupe_saas_idempotent_witness:
  "dedupe_saas (dedupe_saas ex_dups (7 / 10)) (7 / 10) = dedupe_saas ex_dups (7 / 10)
   \<and> dedupe_saas (dedupe_saas (take 2 ex_dups) (9 / 10)) (9 / 10) = take 2 ex_dups
   \<and> \<not> title_sim (dedupe_saas (take 2 ex_dups) (9 / 10) ! 0)
          (dedupe_saas (take 2 ex_dups) (9 / 10) ! 1) \<ge> 9 / 10
   \<and> dedupe_saas [ex_dups ! 2] (7 / 10) = [ex_dups ! 2]"
proof -
  have e: "dedupe_saas (take 2 ex_dups) (9 / 10) = take 2 ex_dups" by code_simp
  have "(0::nat) < 1 \<and> 1 < length (dedupe_saas (take 2 ex_dups) (9 / 10))"
    unfolding e by (simp add: ex_dups_def)
  with dedupe_saas_idempotent[of "take 2 ex_dups" "9 / 10"]
  have "\<not> title_sim (dedupe_saas (take 2 ex_dups) (9 / 10) ! 0)
          (dedupe_saas (take 2 ex_dups) (9 / 10) ! 1) \<ge> 9 / 10"
    by blast
  moreover have "dedupe_saas (dedupe_saas (take 2 ex_dups) (9 / 10)) (9 / 10) = take 2 ex_dups"
    using dedupe_saas_idempotent[of "take 2 ex_dups" "9 / 10"] e by simp
  moreover have "dedupe_saas [ex_dups ! 2] (7 / 10) = [ex_dups ! 2]"
    using dedupe_saas_idempotent[of "[ex_dups ! 2]" "7 / 10"] by simp
  ultimately show ?thesis
    using dedupe_saas_idempotent[of ex_dups "7 / 10"] by blast
qed

section \<open>Properties of the clustering engine\<close>


lemma reaches_det:
  "reaches p i r h \<Longrightarrow> reaches p i r' h' \<Longrightarrow> r' = r \<and> h' = h"
proof (induction arbitrary: r' h' rule: reaches.induct)
  case (root i)
  from root.prems root.hyps show ?case
    by (cases rule: reaches.cases) auto
next
  case (step i r h)
  from step.prems step.hyps(1,2) obtain h0 where "h' = Suc h0" "reaches p (p ! i) r' h0"
    by (cases rule: reaches.cases) auto
  with step.IH show ?case by blast
qed

lemma reaches_bounds:
  "reaches p i r h \<Longrightarrow> i < length p \<and> r < length p \<and> p ! r = r"
  by (induction rule: reaches.induct) auto

lemma reaches_zero: "reaches p i r 0 \<Longrightarrow> r = i \<and> p ! i = i"
  by (cases rule: reaches.cases) auto

lemma reaches_Suc:
  "reaches p i r (Suc h) \<Longrightarrow> p ! i \<noteq> i \<and> reaches p (p ! i) r h"
  by (cases rule: reaches.cases) auto

lemma root_of_eq: "reaches p i r h \<Longrightarrow> root_of p i = r"
  unfolding root_of_def using reaches_det by blast

lemma uf_inv_root_of:
  "uf_inv p \<Longrightarrow> i < length p \<Longrightarrow> \<exists>h. reaches p i (root_of p i) h"
  unfolding uf_inv_def using root_of_eq by blast

lemma root_of_bounds:
  "uf_inv p \<Longrightarrow> i < length p \<Longrightarrow> root_of p i < length p \<and> p ! root_of p i = root_of p i"
  using uf_inv_root_of reaches_bounds by blast

lemma root_of_root: "i < length p \<Longrightarrow> p ! i = i \<Longrightarrow> root_of p i = i"
  using root_of_eq reaches.root by blast

text \<open>An update at a node leaves the paths of all lower nodes as they are.\<close>

lemma reaches_update_above:
  "reaches p k r hk \<Longrightarrow> reaches p i ri hi \<Longrightarrow> hk < hi \<Longrightarrow> reaches (p[i := x]) k r hk"
proof (induction rule: reaches.induct)
  case (root k)
  have "k \<noteq> i"
    using root.prems root.hyps reaches_det[OF reaches.root[OF root.hyps], of ri hi] by auto
  with root.hyps show ?case by (simp add: reaches.root)
next
  case (step k r h)
  have "k \<noteq> i"
    using step.prems reaches_det[OF reaches.step[OF step.hyps], of ri hi] by auto
  moreover have "reaches (p[i := x]) (p ! k) r h"
    using step.IH step.prems by simp
  ultimately show ?case
    using step.hyps(1,2) by (simp add: reaches.step)
qed

text \<open>Path compression at \<open>i\<close>: the new parent is a proper ancestor of \<open>i\<close>.\<close>

lemma reaches_compress:
  assumes i: "reaches p i r hi" and g: "reaches p g r hg" and lt: "hg < hi"
    and k: "reaches p k r' hk"
  shows "\<exists>h. reaches (p[i := g]) k r' h"
  using k
proof (induction rule: reaches.induct)
  case (root k)
  have "k \<noteq> i"
    using lt reaches_det[OF reaches.root[OF root], of r hi] i by auto
  with root show ?case
    using reaches.root[of k "p[i := g]"] by auto
next
  case (step k r' h)
  show ?case
  proof (cases "k = i")
    case False
    with step show ?thesis
      using reaches.step[of k "p[i := g]"] by auto
  next
    case True
    have r': "r' = r"
      using reaches_det[OF i, of r' "Suc h"] reaches.step[OF step(1,2,3)] True by auto
    have gi: "g \<noteq> i"
      using reaches_det[OF i, of r hg] g lt by auto
    have "reaches (p[i := g]) g r hg"
      using reaches_update_above[OF g i lt] .
    then show ?thesis
      using reaches.step[of i "p[i := g]" r hg] step(1) True gi r' by auto
  qed
qed

lemma compress_inv:
  assumes "uf_inv p" "reaches p i r hi" "reaches p g r hg" "hg < hi"
  shows "uf_inv (p[i := g])"
    and "\<forall>k < length p. root_of (p[i := g]) k = root_of p k"
proof -
  have *: "\<And>k. k < length p \<Longrightarrow> \<exists>h. reaches (p[i := g]) k (root_of p k) h"
  proof -
    fix k assume "k < length p"
    with assms(1) obtain h where "reaches p k (root_of p k) h"
      using uf_inv_root_of by blast
    from reaches_compress[OF assms(2,3,4) this] show "\<exists>h. reaches (p[i := g]) k (root_of p k) h" .
  qed
  show "uf_inv (p[i := g])"
    unfolding uf_inv_def length_list_update using * by blast
  show "\<forall>k < length p. root_of (p[i := g]) k = root_of p k"
    using * root_of_eq by blast
qed

lemma find_root_spec:
  "reaches p i r h \<Longrightarrow> uf_inv p \<Longrightarrow>
   \<exists>p'. find_root p i = Some (Inr (p', r)) \<and> length p' = length p \<and> uf_inv p'
        \<and> (\<forall>k < length p. root_of p' k = root_of p k)"
proof (induction h arbitrary: p i rule: less_induct)
  case (less h)
  note b = reaches_bounds[OF less.prems(1)]
  show ?case
  proof (cases h)
    case 0
    with less.prems(1) have "r = i" "p ! i = i" using reaches_zero by blast+
    with b less.prems(2) show ?thesis
      by (subst find_root.simps) simp
  next
    case (Suc h')
    with less.prems(1) have ne: "p ! i \<noteq> i" and q: "reaches p (p ! i) r h'"
      using reaches_Suc by blast+
    let ?q = "p ! i"
    let ?g = "p ! ?q"
    have ql: "?q < length p" using reaches_bounds[OF q] by simp
    have "\<exists>hg. hg \<le> h' \<and> reaches p ?g r hg"
    proof (cases h')
      case 0
      with q have "p ! ?q = ?q" using reaches_zero by blast
      with q 0 show ?thesis by auto
    next
      case (Suc h'')
      with q have "reaches p ?g r h''" using reaches_Suc by blast
      with Suc show ?thesis by (intro exI[of _ h'']) simp
    qed
    then obtain hg where hg: "hg \<le> h'" "reaches p ?g r hg" by blast
    then have lt: "hg < h" using Suc by simp
    let ?p' = "p[i := ?g]"
    have inv': "uf_inv ?p'" and roots': "\<forall>k < length p. root_of ?p' k = root_of p k"
      using compress_inv[OF less.prems(2) less.prems(1) hg(2) lt] by blast+
    have g': "reaches ?p' ?g r hg"
      using reaches_update_above[OF hg(2) less.prems(1) lt] .
    from less.IH[OF lt g' inv'] obtain p'' where
      p'': "find_root ?p' ?g = Some (Inr (p'', r))" "length p'' = length ?p'" "uf_inv p''"
        "\<forall>k < length ?p'. root_of p'' k = root_of ?p' k"
      by blast
    have "find_root p i = find_root ?p' ?g"
      using b ne ql by (subst find_root.simps) simp
    with p'' roots' show ?thesis by simp
  qed
qed

lemma find_root_inv:
  assumes "uf_inv p" "i < length p"
  shows "\<exists>p'. find_root p i = Some (Inr (p', root_of p i)) \<and> length p' = length p \<and> uf_inv p'
        \<and> (\<forall>k < length p. root_of p' k = root_of p k)"
proof -
  from uf_inv_root_of[OF assms] obtain h where "reaches p i (root_of p i) h" by blast
  from find_root_spec[OF this assms(1)] show ?thesis .
qed

lemma reaches_link:
  assumes ra: "ra < length p" "p ! ra = ra" and rb: "rb < length p" "p ! rb = rb"
    and ne: "ra \<noteq> rb" and k: "reaches p k r h"
  shows "\<exists>h'. reaches (p[rb := ra]) k (if r = rb then ra else r) h'"
  using k
proof (induction rule: reaches.induct)
  case (root k)
  have a: "reaches (p[rb := ra]) ra ra 0"
    using ra ne by (intro reaches.root) simp_all
  show ?case
  proof (cases "k = rb")
    case True
    have "reaches (p[rb := ra]) rb ra (Suc 0)"
      using rb ne a by (intro reaches.step) simp_all
    with True show ?thesis by auto
  next
    case False
    with root have "reaches (p[rb := ra]) k k 0"
      by (intro reaches.root) simp_all
    with False show ?thesis by auto
  qed
next
  case (step k r h)
  from step(2) rb have "k \<noteq> rb" by auto
  with step obtain h' where "reaches (p[rb := ra]) (p[rb := ra] ! k) (if r = rb then ra else r) h'"
    by auto
  then have "reaches (p[rb := ra]) k (if r = rb then ra else r) (Suc h')"
    using step(1,2) \<open>k \<noteq> rb\<close> by (intro reaches.step) simp_all
  then show ?case by blast
qed

lemma link_inv:
  assumes "uf_inv p" "ra < length p" "p ! ra = ra" "rb < length p" "p ! rb = rb" "ra \<noteq> rb"
  shows "uf_inv (p[rb := ra])"
    and "\<forall>k < length p. root_of (p[rb := ra]) k = (if root_of p k = rb then ra else root_of p k)"
proof -
  have *: "\<And>k. k < length p \<Longrightarrow>
      \<exists>h. reaches (p[rb := ra]) k (if root_of p k = rb then ra else root_of p k) h"
  proof -
    fix k assume "k < length p"
    with assms(1) obtain h where "reaches p k (root_of p k) h"
      using uf_inv_root_of by blast
    from reaches_link[OF assms(2-6) this]
    show "\<exists>h. reaches (p[rb := ra]) k (if root_of p k = rb then ra else root_of p k) h" .
  qed
  show "uf_inv (p[rb := ra])"
    unfolding uf_inv_def length_list_update using * by blast
  show "\<forall>k < length p. root_of (p[rb := ra]) k = (if root_of p k = rb then ra else root_of p k)"
    using * root_of_eq by blast
qed

lemma union_uf_spec:
  assumes inv: "uf_inv p" and lr: "length rank = length p" and a: "a < length p" and b: "b < length p"
  shows "\<exists>p' rank'. union_uf p rank a b = Some (Inr (p', rank'))
           \<and> length p' = length p \<and> length rank' = length p \<and> uf_inv p'
           \<and> (\<forall>x < length p. \<forall>y < length p.
                 root_of p' x = root_of p' y \<longleftrightarrow>
                   root_of p x = root_of p y
                   \<or> (root_of p x \<in> {root_of p a, root_of p b}
                       \<and> root_of p y \<in> {root_of p a, root_of p b}))"
proof -
  from find_root_inv[OF inv a] obtain p1 where
    p1: "find_root p a = Some (Inr (p1, root_of p a))" "length p1 = length p" "uf_inv p1"
      "\<forall>k < length p. root_of p1 k = root_of p k" by blast
  from find_root_inv[OF p1(3), of b] b p1(2) obtain p2 where
    p2: "find_root p1 b = Some (Inr (p2, root_of p1 b))" "length p2 = length p" "uf_inv p2"
      "\<forall>k < length p. root_of p2 k = root_of p1 k" by auto
  define ra where "ra = root_of p a"
  define rb where "rb = root_of p b"
  have rb1: "root_of p1 b = rb" using p1(4) b by (simp add: rb_def)
  have roots2: "\<forall>k < length p. root_of p2 k = root_of p k" using p1(4) p2(4) by simp
  have ra_b: "ra < length p" "p2 ! ra = ra"
    using root_of_bounds[OF p2(3), of a] a p2(2) roots2 by (simp_all add: ra_def)
  have rb_b: "rb < length p" "p2 ! rb = rb"
    using root_of_bounds[OF p2(3), of b] b p2(2) roots2 by (simp_all add: rb_def)
  have u: "union_uf p rank a b =
       (if ra = rb then Some (Inr (p2, rank))
        else let (ra', rb') = (if rank ! ra < rank ! rb then (rb, ra) else (ra, rb))
             in let parent = p2[rb' := ra']
                in if rank ! ra' = rank ! rb'
                   then Some (Inr (parent, rank[ra' := rank ! ra' + 1]))
                   else Some (Inr (parent, rank)))"
    unfolding union_uf_def p1(1) bind_res_def
    using p2(1) rb1 ra_b rb_b lr p2(2)
    by (simp add: ra_def[symmetric] Let_def split: prod.splits)
  show ?thesis
  proof (cases "ra = rb")
    case True
    with u have "union_uf p rank a b = Some (Inr (p2, rank))" by simp
    moreover have "\<forall>x < length p. \<forall>y < length p.
                 root_of p2 x = root_of p2 y \<longleftrightarrow>
                   root_of p x = root_of p y
                   \<or> (root_of p x \<in> {root_of p a, root_of p b}
                       \<and> root_of p y \<in> {root_of p a, root_of p b})"
      using roots2 True by (auto simp: ra_def rb_def)
    ultimately show ?thesis using p2(2,3) lr by auto
  next
    case False
    define ra' where "ra' = (if rank ! ra < rank ! rb then rb else ra)"
    define rb' where "rb' = (if rank ! ra < rank ! rb then ra else rb)"
    have swap: "(ra' = ra \<and> rb' = rb) \<or> (ra' = rb \<and> rb' = ra)"
      by (simp add: ra'_def rb'_def)
    have ne': "ra' \<noteq> rb'" using False swap by auto
    have b': "ra' < length p2" "p2 ! ra' = ra'" "rb' < length p2" "p2 ! rb' = rb'"
      using swap ra_b rb_b p2(2) by auto
    let ?p' = "p2[rb' := ra']"
    obtain rank' where res: "union_uf p rank a b = Some (Inr (?p', rank'))"
      "length rank' = length p"
      using u False lr by (cases "rank ! ra < rank ! rb"; cases "rank ! ra = rank ! rb")
        (auto simp: ra'_def rb'_def Let_def)
    note li = link_inv[OF p2(3) b'(1,2,3,4) ne']
    have "\<forall>x < length p. \<forall>y < length p.
                 root_of ?p' x = root_of ?p' y \<longleftrightarrow>
                   root_of p x = root_of p y
                   \<or> (root_of p x \<in> {root_of p a, root_of p b}
                       \<and> root_of p y \<in> {root_of p a, root_of p b})"
      using li(2) roots2 p2(2) swap ne' by (auto simp: ra_def rb_def)
    with res li(1) p2(2) show ?thesis by auto
  qed
qed

lemma sym_closure: "sym ((E \<union> E\<inverse>)\<^sup>*)"
  by (intro sym_rtrancl sym_Un_converse)

lemma closure_insert:
  fixes E :: "(nat \<times> nat) set"
  defines "R \<equiv> (E \<union> E\<inverse>)\<^sup>*"
  shows "(u, v) \<in> (insert (c, d) E \<union> (insert (c, d) E)\<inverse>)\<^sup>* \<longleftrightarrow>
     ((u, d) \<in> R \<and> (c, v) \<in> R) \<or> ((u, c) \<in> R \<and> (d, v) \<in> R) \<or> (u, v) \<in> R"
    (is "?L \<longleftrightarrow> ?M")
proof
  let ?E' = "insert (c, d) E \<union> (insert (c, d) E)\<inverse>"
  have sub: "R \<subseteq> ?E'\<^sup>*" unfolding R_def by (intro rtrancl_mono) auto
  have cd: "(c, d) \<in> ?E'\<^sup>*" "(d, c) \<in> ?E'\<^sup>*" by auto
  {
    assume ?M
    then show ?L
    proof (elim disjE conjE)
      assume "(u, v) \<in> R" then show ?L using sub by blast
    next
      assume "(u, c) \<in> R" "(d, v) \<in> R"
      then have "(u, c) \<in> ?E'\<^sup>*" "(d, v) \<in> ?E'\<^sup>*" using sub by blast+
      with cd(1) show ?L by (meson rtrancl_trans)
    next
      assume "(u, d) \<in> R" "(c, v) \<in> R"
      then have "(u, d) \<in> ?E'\<^sup>*" "(c, v) \<in> ?E'\<^sup>*" using sub by blast+
      with cd(2) show ?L by (meson rtrancl_trans)
    qed
  }
  assume ?L
  then show ?M
  proof (induction rule: rtrancl_induct)
    case base
    then show ?case by (simp add: R_def)
  next
    case (step v w)
    from step(2) consider "(v, w) \<in> E \<union> E\<inverse>" | "v = c \<and> w = d" | "v = d \<and> w = c"
      by auto
    then show ?case
    proof cases
      case 1
      then have vw: "(v, w) \<in> R" by (auto simp: R_def)
      have t: "\<And>s. (s, v) \<in> R \<Longrightarrow> (s, w) \<in> R"
        using vw unfolding R_def by (meson rtrancl_trans)
      from step(3) show ?thesis using t by blast
    next
      case 2
      have "(d, d) \<in> R" by (simp add: R_def)
      with step(3) 2 show ?thesis by auto
    next
      case 3
      have "(c, c) \<in> R" by (simp add: R_def)
      with step(3) 3 show ?thesis by auto
    qed
  qed
qed

lemma represents_union:
  assumes rep: "represents p E n" and a: "a < n" and b: "b < n"
    and p': "length p' = n" "uf_inv p'"
      "\<forall>x < n. \<forall>y < n.
         root_of p' x = root_of p' y \<longleftrightarrow>
           root_of p x = root_of p y
           \<or> (root_of p x \<in> {root_of p a, root_of p b}
               \<and> root_of p y \<in> {root_of p a, root_of p b})"
  shows "represents p' (insert (a, b) E) n"
proof -
  let ?R = "(E \<union> E\<inverse>)\<^sup>*"
  have eq: "\<And>x y. x < n \<Longrightarrow> y < n \<Longrightarrow> root_of p x = root_of p y \<longleftrightarrow> (x, y) \<in> ?R"
    using rep by (simp add: represents_def)
  have s: "\<And>x y. (x, y) \<in> ?R \<Longrightarrow> (y, x) \<in> ?R"
    using sym_closure[of E] by (meson symD)
  have t: "\<And>x y z. (x, y) \<in> ?R \<Longrightarrow> (y, z) \<in> ?R \<Longrightarrow> (x, z) \<in> ?R"
    by (meson rtrancl_trans)
  have "\<forall>x < n. \<forall>y < n. root_of p' x = root_of p' y \<longleftrightarrow>
      (x, y) \<in> (insert (a, b) E \<union> (insert (a, b) E)\<inverse>)\<^sup>*"
  proof (intro allI impI)
    fix x y assume x: "x < n" and y: "y < n"
    have "root_of p' x = root_of p' y \<longleftrightarrow>
        (x, y) \<in> ?R \<or> (((x, a) \<in> ?R \<or> (x, b) \<in> ?R) \<and> ((y, a) \<in> ?R \<or> (y, b) \<in> ?R))"
      using p'(3) x y a b eq by auto
    also have "\<dots> \<longleftrightarrow>
        ((x, b) \<in> ?R \<and> (a, y) \<in> ?R) \<or> ((x, a) \<in> ?R \<and> (b, y) \<in> ?R) \<or> (x, y) \<in> ?R"
      using s t by blast
    finally show "root_of p' x = root_of p' y \<longleftrightarrow>
      (x, y) \<in> (insert (a, b) E \<union> (insert (a, b) E)\<inverse>)\<^sup>*"
      unfolding closure_insert .
  qed
  with p'(1,2) show ?thesis by (simp add: represents_def)
qed

lemma union_uf_represents:
  assumes "represents p E n" "length rank = n" "a < n" "b < n"
  shows "\<exists>p' rank'. union_uf p rank a b = Some (Inr (p', rank'))
           \<and> length rank' = n \<and> represents p' (insert (a, b) E) n"
proof -
  from assms(1) have inv: "uf_inv p" and l: "length p = n" by (simp_all add: represents_def)
  from union_uf_spec[OF inv, of rank a b] assms(2,3,4) l
  obtain p' rank' where r: "union_uf p rank a b = Some (Inr (p', rank'))"
    "length p' = n" "length rank' = n" "uf_inv p'"
    "\<forall>x < n. \<forall>y < n.
         root_of p' x = root_of p' y \<longleftrightarrow>
           root_of p x = root_of p y
           \<or> (root_of p x \<in> {root_of p a, root_of p b}
               \<and> root_of p y \<in> {root_of p a, root_of p b})"
    by auto
  from represents_union[OF assms(1,3,4) r(2,4,5)] r(1,3) show ?thesis by blast
qed

lemma inner_loop_spec:
  assumes "represents p E n" "length rank = n" "i < n" "\<forall>j \<in> set js. j < n"
  shows "\<exists>p' rank'. inner_loop ngrams t i js p rank = Some (Inr (p', rank'))
           \<and> length rank' = n
           \<and> represents p'
                (E \<union> {(i, j) | j. j \<in> set js \<and> jaccard_similarity (ngrams ! i) (ngrams ! j) \<ge> t}) n"
  using assms
proof (induction js arbitrary: p rank E)
  case Nil
  then show ?case by simp
next
  case (Cons j js)
  let ?S = "\<lambda>js. {(i, j) | j. j \<in> set js \<and> jaccard_similarity (ngrams ! i) (ngrams ! j) \<ge> t}"
  show ?case
  proof (cases "jaccard_similarity (ngrams ! i) (ngrams ! j) \<ge> t")
    case True
    from union_uf_represents[OF Cons.prems(1,2,3), of j] Cons.prems(4)
    obtain p1 rank1 where u: "union_uf p rank i j = Some (Inr (p1, rank1))"
      "length rank1 = n" "represents p1 (insert (i, j) E) n" by auto
    from Cons.IH[OF u(3) u(2) Cons.prems(3)] Cons.prems(4)
    obtain p' rank' where r: "inner_loop ngrams t i js p1 rank1 = Some (Inr (p', rank'))"
      "length rank' = n" "represents p' (insert (i, j) E \<union> ?S js) n" by auto
    have "insert (i, j) E \<union> ?S js = E \<union> ?S (j # js)" using True by auto
    with r u(1) True show ?thesis by (simp add: bind_res_def)
  next
    case False
    from Cons.IH[OF Cons.prems(1,2,3)] Cons.prems(4)
    obtain p' rank' where r: "inner_loop ngrams t i js p rank = Some (Inr (p', rank'))"
      "length rank' = n" "represents p' (E \<union> ?S js) n" by auto
    have "?S js = ?S (j # js)" using False by auto
    with r False show ?thesis by simp
  qed
qed

lemma outer_loop_spec:
  assumes "represents p E n" "length rank = n" "\<forall>i \<in> set is. i < n"
  shows "\<exists>p' rank'. outer_loop ngrams t n is p rank = Some (Inr (p', rank'))
           \<and> length rank' = n
           \<and> represents p'
                (E \<union> {(i, j) | i j. i \<in> set is \<and> i < j \<and> j < n
                         \<and> jaccard_similarity (ngrams ! i) (ngrams ! j) \<ge> t}) n"
  using assms
proof (induction "is" arbitrary: p rank E)
  case Nil
  then show ?case by simp
next
  case (Cons i "is")
  let ?S = "\<lambda>i. {(i, j) | j. j \<in> set [i + 1..<n] \<and> jaccard_similarity (ngrams ! i) (ngrams ! j) \<ge> t}"
  let ?T = "\<lambda>is. {(i, j) | i j. i \<in> set is \<and> i < j \<and> j < n
                         \<and> jaccard_similarity (ngrams ! i) (ngrams ! j) \<ge> t}"
  have i: "i < n" using Cons.prems(3) by simp
  from inner_loop_spec[OF Cons.prems(1,2) i, of "[i + 1..<n]" ngrams t]
  obtain p1 rank1 where u: "inner_loop ngrams t i [i + 1..<n] p rank = Some (Inr (p1, rank1))"
    "length rank1 = n" "represents p1 (E \<union> ?S i) n" by auto
  from Cons.IH[OF u(3) u(2)] Cons.prems(3)
  obtain p' rank' where r: "outer_loop ngrams t n is p1 rank1 = Some (Inr (p', rank'))"
    "length rank' = n" "represents p' (E \<union> ?S i \<union> ?T is) n" by auto
  have "E \<union> ?S i \<union> ?T is = E \<union> ?T (i # is)" by auto
  with r u(1) show ?case by (simp add: bind_res_def)
qed

lemma represents_init: "represents [0..<n] {} n"
proof -
  have r: "\<And>i. i < n \<Longrightarrow> reaches [0..<n] i i 0"
    by (intro reaches.root) simp_all
  then have "uf_inv [0..<n]" unfolding uf_inv_def by auto
  moreover have "\<And>i. i < n \<Longrightarrow> root_of [0..<n] i = i"
    using r root_of_eq by blast
  ultimately show ?thesis by (simp add: represents_def)
qed

lemma sweep_spec:
  "uf_inv p \<Longrightarrow> \<forall>i \<in> set is. i < length p \<Longrightarrow>
   sweep is p c = Some (Inr (group_by_root (root_of p) is c))"
proof (induction "is" arbitrary: p c)
  case Nil
  then show ?case by (simp add: group_by_root_def)
next
  case (Cons i "is")
  from Cons.prems have i: "i < length p" by simp
  from find_root_inv[OF Cons.prems(1) i] obtain p' where
    p': "find_root p i = Some (Inr (p', root_of p i))" "length p' = length p" "uf_inv p'"
      "\<forall>k < length p. root_of p' k = root_of p k" by blast
  have "sweep is p' (dict_append c (root_of p i) i)
      = Some (Inr (group_by_root (root_of p') is (dict_append c (root_of p i) i)))"
    using Cons.IH[OF p'(3)] Cons.prems(2) p'(2) by simp
  moreover have "group_by_root (root_of p') is (dict_append c (root_of p i) i)
      = group_by_root (root_of p) is (dict_append c (root_of p i) i)"
    unfolding group_by_root_def
    by (rule fold_cong) (use p'(4) Cons.prems(2) in auto)
  ultimately show ?case
    using p'(1) by (simp add: bind_res_def group_by_root_def)
qed

lemma keys_dict_append:
  "map fst (dict_append c r i) = (if r \<in> fst ` set c then map fst c else map fst c @ [r])"
  by (induction c r i rule: dict_append.induct) auto

lemma map_of_dict_append:
  "map_of (dict_append c r i) =
     (map_of c)(r \<mapsto> (case map_of c r of None \<Rightarrow> [i] | Some ms \<Rightarrow> ms @ [i]))"
  by (induction c r i rule: dict_append.induct) (auto simp: fun_eq_iff)

lemma group_by_root_snoc:
  "group_by_root \<rho> (xs @ [x]) c = dict_append (group_by_root \<rho> xs c) (\<rho> x) x"
  by (simp add: group_by_root_def)

lemma group_by_root_spec:
  "distinct (map fst (group_by_root \<rho> xs []))
   \<and> fst ` set (group_by_root \<rho> xs []) = \<rho> ` set xs
   \<and> (\<forall>r. map_of (group_by_root \<rho> xs []) r =
          (if r \<in> \<rho> ` set xs then Some (filter (\<lambda>i. \<rho> i = r) xs) else None))"
proof (induction xs rule: rev_induct)
  case Nil
  then show ?case by (simp add: group_by_root_def)
next
  case (snoc x xs)
  let ?D = "group_by_root \<rho> xs []"
  from snoc have d: "distinct (map fst ?D)" and k: "fst ` set ?D = \<rho> ` set xs"
    and m: "\<And>r. map_of ?D r = (if r \<in> \<rho> ` set xs then Some (filter (\<lambda>i. \<rho> i = r) xs) else None)"
    by blast+
  have 1: "distinct (map fst (dict_append ?D (\<rho> x) x))"
    using d by (simp add: keys_dict_append)
  have 2: "fst ` set (dict_append ?D (\<rho> x) x) = \<rho> ` set (xs @ [x])"
  proof -
    have "fst ` set (dict_append ?D (\<rho> x) x) = set (map fst (dict_append ?D (\<rho> x) x))"
      by simp
    also have "\<dots> = insert (\<rho> x) (fst ` set ?D)"
      unfolding keys_dict_append by auto
    finally show ?thesis using k by auto
  qed
  have ne: "\<rho> x \<notin> \<rho> ` set xs \<Longrightarrow> filter (\<lambda>i. \<rho> i = \<rho> x) xs = []"
    unfolding filter_empty_conv by (metis image_eqI)
  have 3: "\<forall>r. map_of (dict_append ?D (\<rho> x) x) r =
          (if r \<in> \<rho> ` set (xs @ [x]) then Some (filter (\<lambda>i. \<rho> i = r) (xs @ [x])) else None)"
    unfolding map_of_dict_append by (simp add: m ne)
  from 1 2 3 show ?case unfolding group_by_root_snoc by blast
qed

lemma assign_members_spec:
  "\<forall>m \<in> set ms. m < length items \<Longrightarrow>
   \<exists>items'. assign_members cid msig ms items = Inr items' \<and> length items' = length items
     \<and> (\<forall>i < length items.
           items' ! i = (if i \<in> set ms
                         then (items ! i)\<lparr>cluster_id := cid, market_signal := msig\<rparr>
                         else items ! i))"
proof (induction ms arbitrary: items)
  case Nil
  then show ?case by simp
next
  case (Cons idx rest)
  let ?it1 = "items[idx := (items ! idx)\<lparr>cluster_id := cid, market_signal := msig\<rparr>]"
  from Cons.prems have idx: "idx < length items" by simp
  from Cons.IH[of ?it1] Cons.prems obtain items' where
    r: "assign_members cid msig rest ?it1 = Inr items'" "length items' = length items"
      "\<forall>i < length items.
           items' ! i = (if i \<in> set rest
                         then (?it1 ! i)\<lparr>cluster_id := cid, market_signal := msig\<rparr>
                         else ?it1 ! i)"
    by auto
  have "\<forall>i < length items.
           items' ! i = (if i \<in> set (idx # rest)
                         then (items ! i)\<lparr>cluster_id := cid, market_signal := msig\<rparr>
                         else items ! i)"
    using r(3) idx by (auto simp: nth_list_update)
  with r(1,2) idx show ?case by simp
qed

lemma assign_clusters_spec:
  "\<forall>e \<in> set D. \<forall>m \<in> set (snd e). m < length items \<Longrightarrow>
   \<exists>items'. assign_clusters c0 D items = Inr items' \<and> length items' = length items
     \<and> (\<forall>i < length items.
          ((\<forall>e \<in> set D. i \<notin> set (snd e)) \<longrightarrow> items' ! i = items ! i)
          \<and> (\<forall>k < length D.
                i \<in> set (snd (D ! k)) \<and> (\<forall>k' < length D. i \<in> set (snd (D ! k')) \<longrightarrow> k' = k)
                \<longrightarrow> items' ! i =
                      (items ! i)\<lparr>cluster_id := int (c0 + k),
                        market_signal := min (int (length (snd (D ! k))) * 25) 100\<rparr>))"
proof (induction D arbitrary: c0 items)
  case Nil
  then show ?case by simp
next
  case (Cons e cs)
  obtain r ms where e: "e = (r, ms)" by (cases e)
  let ?msig = "min (int (length ms) * 25) 100"
  from Cons.prems e have "\<forall>m \<in> set ms. m < length items" by auto
  from assign_members_spec[OF this, of "int c0" ?msig] obtain items1 where
    m1': "assign_members (int c0) ?msig ms items = Inr items1 \<and> length items1 = length items
      \<and> (\<forall>i < length items.
           items1 ! i = (if i \<in> set ms
                         then (items ! i)\<lparr>cluster_id := int c0, market_signal := ?msig\<rparr>
                         else items ! i))"
    ..
  note m1 = m1'[THEN conjunct1] m1'[THEN conjunct2, THEN conjunct1]
    m1'[THEN conjunct2, THEN conjunct2]
  have "\<forall>e \<in> set cs. \<forall>m \<in> set (snd e). m < length items1"
    using Cons.prems m1(2) by auto
  from Cons.IH[OF this, of "Suc c0"] obtain items' where
    r': "assign_clusters (Suc c0) cs items1 = Inr items' \<and> length items' = length items1
      \<and> (\<forall>i < length items1.
          ((\<forall>e \<in> set cs. i \<notin> set (snd e)) \<longrightarrow> items' ! i = items1 ! i)
          \<and> (\<forall>k < length cs.
                i \<in> set (snd (cs ! k)) \<and> (\<forall>k' < length cs. i \<in> set (snd (cs ! k')) \<longrightarrow> k' = k)
                \<longrightarrow> items' ! i =
                      (items1 ! i)\<lparr>cluster_id := int (Suc c0 + k),
                        market_signal := min (int (length (snd (cs ! k))) * 25) 100\<rparr>))"
    ..
  note r = r'[THEN conjunct1] r'[THEN conjunct2, THEN conjunct1]
    r'[THEN conjunct2, THEN conjunct2]
  have m1a: "items1 ! i = (items ! i)\<lparr>cluster_id := int c0, market_signal := ?msig\<rparr>"
    if "i < length items" "i \<in> set ms" for i
    using m1(3)[rule_format, OF that(1)] that(2) by (simp only: if_True)
  have m1b: "items1 ! i = items ! i" if "i < length items" "i \<notin> set ms" for i
    using m1(3)[rule_format, OF that(1)] that(2) by (simp only: if_False)
  have ra: "items' ! i = items1 ! i"
    if "i < length items" "\<forall>e \<in> set cs. i \<notin> set (snd e)" for i
  proof -
    from that(1) m1(2) have "i < length items1" by simp
    from r(3)[THEN spec, THEN mp, OF this, THEN conjunct1, THEN mp, OF that(2)]
    show ?thesis .
  qed
  have rb: "items' ! i = (items1 ! i)\<lparr>cluster_id := int (Suc c0 + k),
                        market_signal := min (int (length (snd (cs ! k))) * 25) 100\<rparr>"
    if "i < length items" "k < length cs" "i \<in> set (snd (cs ! k))"
      "\<forall>k' < length cs. i \<in> set (snd (cs ! k')) \<longrightarrow> k' = k" for i k
  proof -
    from that(1) m1(2) have "i < length items1" by simp
    note c = r(3)[THEN spec, THEN mp, OF this, THEN conjunct2, THEN spec, THEN mp, OF that(2)]
    from that(3,4) have "i \<in> set (snd (cs ! k))
        \<and> (\<forall>k' < length cs. i \<in> set (snd (cs ! k')) \<longrightarrow> k' = k)" by (rule conjI)
    from c[THEN mp, OF this] show ?thesis .
  qed
  have res: "assign_clusters c0 (e # cs) items = Inr items'"
    using m1(1) r(1) by (simp add: e Let_def)
  have len: "length items' = length items" using r(2) m1(2) by simp
  have main: "\<forall>i < length items.
          ((\<forall>e \<in> set (e # cs). i \<notin> set (snd e)) \<longrightarrow> items' ! i = items ! i)
          \<and> (\<forall>k < length (e # cs).
                i \<in> set (snd ((e # cs) ! k))
                \<and> (\<forall>k' < length (e # cs). i \<in> set (snd ((e # cs) ! k')) \<longrightarrow> k' = k)
                \<longrightarrow> items' ! i =
                      (items ! i)\<lparr>cluster_id := int (c0 + k),
                        market_signal := min (int (length (snd ((e # cs) ! k))) * 25) 100\<rparr>)"
  proof (intro allI impI conjI)
    fix i assume i: "i < length items"
    assume "\<forall>e \<in> set (e # cs). i \<notin> set (snd e)"
    then have "i \<notin> set ms" "\<forall>e \<in> set cs. i \<notin> set (snd e)" using e by auto
    with ra[OF i] m1b[OF i] show "items' ! i = items ! i" by simp
  next
    fix i k assume i: "i < length items" and k: "k < length (e # cs)"
      and h: "i \<in> set (snd ((e # cs) ! k))
                \<and> (\<forall>k' < length (e # cs). i \<in> set (snd ((e # cs) ! k')) \<longrightarrow> k' = k)"
    show "items' ! i =
                      (items ! i)\<lparr>cluster_id := int (c0 + k),
                        market_signal := min (int (length (snd ((e # cs) ! k))) * 25) 100\<rparr>"
    proof (cases k)
      case 0
      with h e have ims: "i \<in> set ms" by simp
      have "\<forall>e' \<in> set cs. i \<notin> set (snd e')"
      proof
        fix e' assume "e' \<in> set cs"
        then obtain j where j: "j < length cs" "cs ! j = e'" by (auto simp: in_set_conv_nth)
        show "i \<notin> set (snd e')"
        proof
          assume "i \<in> set (snd e')"
          with j have "Suc j < length (e # cs)" "i \<in> set (snd ((e # cs) ! Suc j))" by auto
          with h 0 show False by blast
        qed
      qed
      then have "items' ! i = items1 ! i" by (rule ra[OF i])
      with m1a[OF i ims] 0 e show ?thesis by simp
    next
      case (Suc j)
      with k have j: "j < length cs" by simp
      from h Suc have ij: "i \<in> set (snd (cs ! j))" by simp
      have nms: "i \<notin> set ms"
      proof
        assume "i \<in> set ms"
        then have "i \<in> set (snd ((e # cs) ! 0))" "0 < length (e # cs)" using e by simp_all
        with h have "0 = k" by blast
        with Suc show False by simp
      qed
      have uq: "\<forall>k' < length cs. i \<in> set (snd (cs ! k')) \<longrightarrow> k' = j"
      proof (intro allI impI)
        fix k' assume "k' < length cs" "i \<in> set (snd (cs ! k'))"
        then have "Suc k' < length (e # cs)" "i \<in> set (snd ((e # cs) ! Suc k'))" by auto
        with h Suc show "k' = j" by blast
      qed
      have "items' ! i =
                      (items1 ! i)\<lparr>cluster_id := int (Suc c0 + j),
                        market_signal := min (int (length (snd (cs ! j))) * 25) 100\<rparr>"
        by (rule rb[OF i j ij uq])
      with m1b[OF i nms] Suc show ?thesis by simp
    qed
  qed
  show ?case
    by (rule exI[of _ items'], intro conjI) (rule res, rule len, rule main)
qed

lemma summary_sim_sym: "summary_sim a b = summary_sim b a"
  by (simp add: summary_sim_def jaccard_sym)

lemma sim_rel_pairs:
  fixes items t
  defines "ngrams \<equiv> map (\<lambda>item. get_ngrams (idea_summary item) 3) items"
  defines "S \<equiv> {(i, j) | i j. i \<in> set [0..<length items] \<and> i < j \<and> j < length items
                         \<and> jaccard_similarity (ngrams ! i) (ngrams ! j) \<ge> t}"
  shows "S \<union> S\<inverse> = sim_rel items t"
proof -
  have S: "S = {(i, j). i < j \<and> j < length items \<and> summary_sim (items ! i) (items ! j) \<ge> t}"
    unfolding S_def ngrams_def by (auto simp: summary_sim_def)
  show ?thesis
    unfolding S sim_rel_def
    by (auto simp: summary_sim_sym[of "items ! _" "items ! _"])
qed

lemma length_filter_card:
  "length (filter P [0..<n]) = card {j. j < n \<and> P j}"
  by (simp add: length_filter_conv_card cong: conj_cong)

lemma loops_and_sweep:
  assumes n: "n = length items"
  shows "\<exists>p D. bind_res (outer_loop (map (\<lambda>item. get_ngrams (idea_summary item) 3) items) t n
                    [0..<n] [0..<n] (replicate n 0))
               (\<lambda>(parent, rank). bind_res (sweep [0..<n] parent []) (\<lambda>clusters.
                  Some (assign_clusters 0 clusters items)))
             = Some (assign_clusters 0 D items)
          \<and> D = group_by_root (root_of p) [0..<n] []
          \<and> (\<forall>x < n. \<forall>y < n. root_of p x = root_of p y \<longleftrightarrow> (x, y) \<in> (sim_rel items t)\<^sup>*)"
proof -
  let ?ngrams = "map (\<lambda>item. get_ngrams (idea_summary item) 3) items"
  let ?S = "{(i, j) | i j. i \<in> set [0..<n] \<and> i < j \<and> j < n
                         \<and> jaccard_similarity (?ngrams ! i) (?ngrams ! j) \<ge> t}"
  have "\<forall>i \<in> set [0..<n]. i < n" by simp
  from outer_loop_spec[OF represents_init _ this, of "replicate n 0" ?ngrams t]
  obtain p rank where o: "outer_loop ?ngrams t n [0..<n] [0..<n] (replicate n 0) = Some (Inr (p, rank))"
    and rep: "represents p ({} \<union> ?S) n"
    by auto
  from rep have inv: "uf_inv p" and l: "length p = n"
    and eq: "\<forall>x < n. \<forall>y < n. root_of p x = root_of p y \<longleftrightarrow> (x, y) \<in> (?S \<union> ?S\<inverse>)\<^sup>*"
    by (simp_all add: represents_def)
  have "?S \<union> ?S\<inverse> = sim_rel items t"
    using sim_rel_pairs[of items t] unfolding n .
  with eq have eq': "\<forall>x < n. \<forall>y < n. root_of p x = root_of p y \<longleftrightarrow> (x, y) \<in> (sim_rel items t)\<^sup>*"
    by simp
  have "sweep [0..<n] p [] = Some (Inr (group_by_root (root_of p) [0..<n] []))"
    by (rule sweep_spec[OF inv]) (simp add: l)
  with o eq' show ?thesis
    by (intro exI[of _ p] exI[of _ "group_by_root (root_of p) [0..<n] []"])
      (simp add: bind_res_def)
qed

lemma grouped_assign:
  assumes n: "n = length items" and D: "D = group_by_root \<rho> [0..<n] []"
  shows "\<exists>items'. assign_clusters 0 D items = Inr items' \<and> length items' = n
     \<and> (\<forall>i < n. \<exists>k < length D. fst (D ! k) = \<rho> i
            \<and> items' ! i =
                (items ! i)\<lparr>cluster_id := int k,
                  market_signal :=
                    min (int (length (filter (\<lambda>j. \<rho> j = \<rho> i) [0..<n])) * 25) 100\<rparr>)
     \<and> distinct (map fst D)"
proof -
  from group_by_root_spec[of \<rho> "[0..<n]"] D
  have d: "distinct (map fst D)" and ks: "fst ` set D = \<rho> ` set [0..<n]"
    and mo: "\<And>r. map_of D r =
          (if r \<in> \<rho> ` set [0..<n] then Some (filter (\<lambda>i. \<rho> i = r) [0..<n]) else None)"
    by blast+
  have entry: "snd e = filter (\<lambda>i. \<rho> i = fst e) [0..<n]" if "e \<in> set D" for e
  proof -
    from that d have "map_of D (fst e) = Some (snd e)" by simp
    moreover from that ks have "fst e \<in> \<rho> ` set [0..<n]" by blast
    ultimately show ?thesis using mo[of "fst e"] by simp
  qed
  have "\<forall>e \<in> set D. \<forall>m \<in> set (snd e). m < length items"
    using entry n by auto
  from assign_clusters_spec[OF this, of 0] obtain items' where
    r': "assign_clusters 0 D items = Inr items' \<and> length items' = length items
     \<and> (\<forall>i < length items.
          ((\<forall>e \<in> set D. i \<notin> set (snd e)) \<longrightarrow> items' ! i = items ! i)
          \<and> (\<forall>k < length D.
                i \<in> set (snd (D ! k)) \<and> (\<forall>k' < length D. i \<in> set (snd (D ! k')) \<longrightarrow> k' = k)
                \<longrightarrow> items' ! i =
                      (items ! i)\<lparr>cluster_id := int (0 + k),
                        market_signal := min (int (length (snd (D ! k))) * 25) 100\<rparr>))"
    ..
  note r = r'[THEN conjunct1] r'[THEN conjunct2, THEN conjunct1]
    r'[THEN conjunct2, THEN conjunct2]
  have per: "\<exists>k < length D. fst (D ! k) = \<rho> i
            \<and> items' ! i =
                (items ! i)\<lparr>cluster_id := int k,
                  market_signal :=
                    min (int (length (filter (\<lambda>j. \<rho> j = \<rho> i) [0..<n])) * 25) 100\<rparr>"
    if i: "i < n" for i
  proof -
    from i have "\<rho> i \<in> \<rho> ` set [0..<n]" by simp
    with ks obtain e where e: "e \<in> set D" "fst e = \<rho> i" by (metis imageE)
    then obtain k where k: "k < length D" "D ! k = e" by (auto simp: in_set_conv_nth)
    have sk: "snd (D ! k) = filter (\<lambda>j. \<rho> j = \<rho> i) [0..<n]"
      using entry[OF e(1)] e(2) k(2) by simp
    have mem: "i \<in> set (snd (D ! k))" unfolding sk using i by simp
    have uq: "\<forall>k' < length D. i \<in> set (snd (D ! k')) \<longrightarrow> k' = k"
    proof (intro allI impI)
      fix k' assume k': "k' < length D" and m': "i \<in> set (snd (D ! k'))"
      from k' have "D ! k' \<in> set D" by simp
      from entry[OF this] m' have "fst (D ! k') = \<rho> i" by simp
      with e(2) k(2) have "map fst D ! k' = map fst D ! k" using k' k(1) by simp
      with d k' k(1) show "k' = k" by (simp add: nth_eq_iff_index_eq del: nth_map)
    qed
    from i n have il: "i < length items" by simp
    note c = r(3)[THEN spec, THEN mp, OF il, THEN conjunct2, THEN spec, THEN mp, OF k(1)]
    from mem uq have "i \<in> set (snd (D ! k))
        \<and> (\<forall>k' < length D. i \<in> set (snd (D ! k')) \<longrightarrow> k' = k)" by (rule conjI)
    from c[THEN mp, OF this] have "items' ! i =
                      (items ! i)\<lparr>cluster_id := int (0 + k),
                        market_signal := min (int (length (snd (D ! k))) * 25) 100\<rparr>" .
    then have "items' ! i =
                (items ! i)\<lparr>cluster_id := int k,
                  market_signal :=
                    min (int (length (filter (\<lambda>j. \<rho> j = \<rho> i) [0..<n])) * 25) 100\<rparr>"
      unfolding sk by simp
    with k(1,2) e(2) show ?thesis by blast
  qed
  have len: "length items' = n" using r(2) n by simp
  from per have per': "\<forall>i < n. \<exists>k < length D. fst (D ! k) = \<rho> i
            \<and> items' ! i =
                (items ! i)\<lparr>cluster_id := int k,
                  market_signal :=
                    min (int (length (filter (\<lambda>j. \<rho> j = \<rho> i) [0..<n])) * 25) 100\<rparr>"
    by blast
  show ?thesis
    by (rule exI[of _ items'], intro conjI) (rule r(1), rule len, rule per', rule d)
qed

lemma cluster_ideas_roots:
  "\<exists>items' (\<rho> :: nat \<Rightarrow> nat). cluster_ideas items t = Some (Inr items') \<and> length items' = length items
     \<and> (\<forall>x < length items. \<forall>y < length items.
            \<rho> x = \<rho> y \<longleftrightarrow> (x, y) \<in> (sim_rel items t)\<^sup>*)
     \<and> (\<forall>i < length items. \<forall>j < length items.
            cluster_id (items' ! i) = cluster_id (items' ! j) \<longleftrightarrow> \<rho> i = \<rho> j)
     \<and> (\<forall>i < length items.
            market_signal (items' ! i) =
              min (int (length (filter (\<lambda>j. \<rho> j = \<rho> i) [0..<length items])) * 25) 100)
     \<and> (\<forall>i < length items.
            items' ! i = (items ! i)\<lparr>cluster_id := cluster_id (items' ! i),
                           market_signal := market_signal (items' ! i)\<rparr>)"
proof (cases "length items \<le> 1")
  case True
  let ?items' = "map (\<lambda>item. item\<lparr>market_signal := 25, cluster_id := 0\<rparr>) items"
  have c: "cluster_ideas items t = Some (Inr ?items')"
    using True by (simp add: cluster_ideas_def)
  have z: "\<And>i. i < length items \<Longrightarrow> i = 0" using True by simp
  have f: "\<And>i. i < length items \<Longrightarrow> filter (\<lambda>j. j = i) [0..<length items] = [0]"
  proof -
    fix i assume i: "i < length items"
    with True have "length items = 1" by simp
    with z[OF i] show "filter (\<lambda>j. j = i) [0..<length items] = [0]" by simp
  qed
  show ?thesis
  proof (rule exI[of _ ?items'], rule exI[of _ "\<lambda>i::nat. i"], intro conjI allI impI)
    show "cluster_ideas items t = Some (Inr ?items')" by (rule c)
    show "length ?items' = length items" by simp
  next
    fix x y assume "x < length items" "y < length items"
    then have "x = y" using z by blast
    then show "x = y \<longleftrightarrow> (x, y) \<in> (sim_rel items t)\<^sup>*" by simp
  next
    fix i j assume "i < length items" "j < length items"
    then have "i = j" using z by blast
    then show "cluster_id (?items' ! i) = cluster_id (?items' ! j) \<longleftrightarrow> i = j" by simp
  next
    fix i assume i: "i < length items"
    show "market_signal (?items' ! i) =
              min (int (length (filter (\<lambda>j. j = i) [0..<length items])) * 25) 100"
      unfolding f[OF i] using i by simp
    show "?items' ! i = (items ! i)\<lparr>cluster_id := cluster_id (?items' ! i),
                           market_signal := market_signal (?items' ! i)\<rparr>"
      using i by simp
  qed
next
  case False
  define n where "n = length items"
  from loops_and_sweep[OF n_def, of t] obtain p D where
    ls: "bind_res (outer_loop (map (\<lambda>item. get_ngrams (idea_summary item) 3) items) t n
                    [0..<n] [0..<n] (replicate n 0))
               (\<lambda>(parent, rank). bind_res (sweep [0..<n] parent []) (\<lambda>clusters.
                  Some (assign_clusters 0 clusters items)))
             = Some (assign_clusters 0 D items)"
    and D: "D = group_by_root (root_of p) [0..<n] []"
    and eq: "\<forall>x < n. \<forall>y < n. root_of p x = root_of p y \<longleftrightarrow> (x, y) \<in> (sim_rel items t)\<^sup>*"
    by blast
  let ?\<rho> = "root_of p"
  let ?m = "\<lambda>i. min (int (length (filter (\<lambda>j. ?\<rho> j = ?\<rho> i) [0..<n])) * 25) 100"
  from grouped_assign[OF n_def D] obtain items' where
    a: "assign_clusters 0 D items = Inr items'" and len: "length items' = n"
    and per: "\<forall>i < n. \<exists>k < length D. fst (D ! k) = ?\<rho> i
            \<and> items' ! i = (items ! i)\<lparr>cluster_id := int k, market_signal := ?m i\<rparr>"
    and d: "distinct (map fst D)"
    by blast
  have c: "cluster_ideas items t = Some (Inr items')"
    using False ls a unfolding cluster_ideas_def Let_def n_def by simp
  obtain kf where kf: "\<And>i. i < n \<Longrightarrow> kf i < length D \<and> fst (D ! kf i) = ?\<rho> i
            \<and> items' ! i = (items ! i)\<lparr>cluster_id := int (kf i), market_signal := ?m i\<rparr>"
    using per by metis
  have cid: "cluster_id (items' ! i) = int (kf i)" if "i < n" for i
    using kf[OF that] by simp
  have ms: "market_signal (items' ! i) = ?m i" if "i < n" for i
    using kf[OF that] by simp
  have same: "cluster_id (items' ! i) = cluster_id (items' ! j) \<longleftrightarrow> ?\<rho> i = ?\<rho> j"
    if i: "i < n" and j: "j < n" for i j
  proof
    assume "cluster_id (items' ! i) = cluster_id (items' ! j)"
    then have "kf i = kf j" using cid[OF i] cid[OF j] by simp
    then show "?\<rho> i = ?\<rho> j" using kf[OF i] kf[OF j] by metis
  next
    assume "?\<rho> i = ?\<rho> j"
    then have "map fst D ! kf i = map fst D ! kf j"
      using kf[OF i] kf[OF j] by simp
    then have "kf i = kf j"
      using d kf[OF i] kf[OF j] by (simp add: nth_eq_iff_index_eq del: nth_map)
    then show "cluster_id (items' ! i) = cluster_id (items' ! j)"
      using cid[OF i] cid[OF j] by simp
  qed
  have rest: "items' ! i = (items ! i)\<lparr>cluster_id := cluster_id (items' ! i),
                           market_signal := market_signal (items' ! i)\<rparr>" if "i < n" for i
    unfolding cid[OF that] ms[OF that] using kf[OF that] by blast
  show ?thesis
  proof (rule exI[of _ items'], rule exI[of _ ?\<rho>], intro conjI allI impI)
    show "cluster_ideas items t = Some (Inr items')" by (rule c)
    show "length items' = length items" using len n_def by simp
  next
    fix x y assume "x < length items" "y < length items"
    then show "?\<rho> x = ?\<rho> y \<longleftrightarrow> (x, y) \<in> (sim_rel items t)\<^sup>*"
      using eq n_def by simp
  next
    fix i j assume "i < length items" "j < length items"
    then show "cluster_id (items' ! i) = cluster_id (items' ! j) \<longleftrightarrow> ?\<rho> i = ?\<rho> j"
      using same n_def by simp
  next
    fix i assume i: "i < length items"
    then show "market_signal (items' ! i) =
              min (int (length (filter (\<lambda>j. ?\<rho> j = ?\<rho> i) [0..<length items])) * 25) 100"
      using ms[of i] n_def by simp
    show "items' ! i = (items ! i)\<lparr>cluster_id := cluster_id (items' ! i),
                           market_signal := market_signal (items' ! i)\<rparr>"
      using rest[of i] i n_def by simp
  qed
qed

text \<open>
  Claim C6: for every list of items and every threshold, \<open>cluster_ideas\<close> returns, and
  two items get the same \<open>cluster_id\<close> exactly when they are connected in the reflexive
  transitive closure of the (symmetric) relation "the similarity of the idea summaries
  is at least the threshold"; in particular, when the first of three items is similar to
  the second and the second to the third, the first and the third are in one cluster,
  similar or not; the \<open>market_signal\<close> of every item is the minimum of 100 and 25 times
  the size of its cluster; and no other field of an item changes.
\<close>

theorem cluster_ideas_transitive_closure:
  "\<exists>items'. cluster_ideas items t = Some (Inr items') \<and> length items' = length items
     \<and> (\<forall>i < length items. \<forall>j < length items.
            cluster_id (items' ! i) = cluster_id (items' ! j)
              \<longleftrightarrow> (i, j) \<in> (sim_rel items t)\<^sup>*)
     \<and> (\<forall>i j k. i < length items \<and> j < length items \<and> k < length items
            \<and> summary_sim (items ! i) (items ! j) \<ge> t
            \<and> summary_sim (items ! j) (items ! k) \<ge> t
            \<longrightarrow> cluster_id (items' ! i) = cluster_id (items' ! k))
     \<and> (\<forall>i < length items.
            market_signal (items' ! i) =
              min (int (card {j. j < length items
                          \<and> cluster_id (items' ! j) = cluster_id (items' ! i)}) * 25) 100)
     \<and> (\<forall>i < length items.
            items' ! i = (items ! i)\<lparr>cluster_id := cluster_id (items' ! i),
                           market_signal := market_signal (items' ! i)\<rparr>)"
proof -
  let ?n = "length items"
  let ?R = "(sim_rel items t)\<^sup>*"
  from cluster_ideas_roots[of items t] obtain items' and \<rho> :: "nat \<Rightarrow> nat" where
    c: "cluster_ideas items t = Some (Inr items')" and len: "length items' = ?n"
    and eq: "\<forall>x < ?n. \<forall>y < ?n. \<rho> x = \<rho> y \<longleftrightarrow> (x, y) \<in> ?R"
    and same: "\<forall>i < ?n. \<forall>j < ?n.
            cluster_id (items' ! i) = cluster_id (items' ! j) \<longleftrightarrow> \<rho> i = \<rho> j"
    and ms: "\<forall>i < ?n. market_signal (items' ! i) =
              min (int (length (filter (\<lambda>j. \<rho> j = \<rho> i) [0..<?n])) * 25) 100"
    and rest: "\<forall>i < ?n. items' ! i = (items ! i)\<lparr>cluster_id := cluster_id (items' ! i),
                           market_signal := market_signal (items' ! i)\<rparr>"
    by blast
  have 1: "\<forall>i < ?n. \<forall>j < ?n.
            cluster_id (items' ! i) = cluster_id (items' ! j) \<longleftrightarrow> (i, j) \<in> ?R"
    using same eq by simp
  have edge: "(i, j) \<in> ?R" if "i < ?n" "j < ?n" "summary_sim (items ! i) (items ! j) \<ge> t"
    for i j
  proof (cases "i = j")
    case True
    then show ?thesis by simp
  next
    case False
    with that have "(i, j) \<in> sim_rel items t" by (simp add: sim_rel_def)
    then show ?thesis by (rule r_into_rtrancl)
  qed
  have 2: "\<forall>i j k. i < ?n \<and> j < ?n \<and> k < ?n
            \<and> summary_sim (items ! i) (items ! j) \<ge> t
            \<and> summary_sim (items ! j) (items ! k) \<ge> t
            \<longrightarrow> cluster_id (items' ! i) = cluster_id (items' ! k)"
  proof (intro allI impI)
    fix i j k
    assume h: "i < ?n \<and> j < ?n \<and> k < ?n
            \<and> summary_sim (items ! i) (items ! j) \<ge> t
            \<and> summary_sim (items ! j) (items ! k) \<ge> t"
    then have "(i, j) \<in> ?R" "(j, k) \<in> ?R" using edge by blast+
    then have "(i, k) \<in> ?R" by (rule rtrancl_trans)
    with 1 h show "cluster_id (items' ! i) = cluster_id (items' ! k)" by blast
  qed
  have 3: "\<forall>i < ?n. market_signal (items' ! i) =
              min (int (card {j. j < ?n
                          \<and> cluster_id (items' ! j) = cluster_id (items' ! i)}) * 25) 100"
  proof (intro allI impI)
    fix i assume i: "i < ?n"
    have "{j. j < ?n \<and> cluster_id (items' ! j) = cluster_id (items' ! i)}
        = {j. j < ?n \<and> \<rho> j = \<rho> i}"
      using same i by blast
    then have "card {j. j < ?n \<and> cluster_id (items' ! j) = cluster_id (items' ! i)}
        = length (filter (\<lambda>j. \<rho> j = \<rho> i) [0..<?n])"
      by (simp only: length_filter_card)
    with ms i show "market_signal (items' ! i) =
              min (int (card {j. j < ?n
                          \<and> cluster_id (items' ! j) = cluster_id (items' ! i)}) * 25) 100"
      by simp
  qed
  show ?thesis
    by (rule exI[of _ items'], intro conjI) (rule c, rule len, rule 1, rule 2, rule 3, rule rest)
qed

lemma cluster_ideas_example:
  "map_option (map_sum id (map (\<lambda>x. (cluster_id x, market_signal x))))
     (cluster_ideas ex_ideas (3 / 10))
   = Some (Inr [(0, 75), (0, 75), (0, 75), (1, 25)])"
  by code_simp

lemma ex_ideas_sims:
  "summary_sim (ex_ideas ! 0) (ex_ideas ! 1) \<ge> 3 / 10"
  "summary_sim (ex_ideas ! 1) (ex_ideas ! 2) \<ge> 3 / 10"
  "\<not> summary_sim (ex_ideas ! 0) (ex_ideas ! 2) \<ge> 3 / 10"
  by code_simp+

theorem cluster_ideas_transitive_closure_witness:
  "\<exists>items'. cluster_ideas ex_ideas (3 / 10) = Some (Inr items')
     \<and> cluster_id (items' ! 0) = cluster_id (items' ! 2)
     \<and> \<not> summary_sim (ex_ideas ! 0) (ex_ideas ! 2) \<ge> 3 / 10"
proof -
  from cluster_ideas_transitive_closure[of ex_ideas "3 / 10"] obtain items' where
    c: "cluster_ideas ex_ideas (3 / 10) = Some (Inr items')"
    and tr: "\<forall>i j k. i < length ex_ideas \<and> j < length ex_ideas \<and> k < length ex_ideas
            \<and> summary_sim (ex_ideas ! i) (ex_ideas ! j) \<ge> 3 / 10
            \<and> summary_sim (ex_ideas ! j) (ex_ideas ! k) \<ge> 3 / 10
            \<longrightarrow> cluster_id (items' ! i) = cluster_id (items' ! k)"
    by blast
  have l: "length ex_ideas = 4" by (simp add: ex_ideas_def)
  have "cluster_id (items' ! 0) = cluster_id (items' ! 2)"
    using tr[rule_format, of 0 1 2] l ex_ideas_sims(1,2) by simp
  with c ex_ideas_sims(3) show ?thesis by blast
qed

end
